theory Spec2Isabelle
  imports Main "HOL-Library.Word"
begin

section \<open>The phonebook of \<open>Phonebook.c\<close>: a chained hash table\<close>

text \<open>
  The program keeps contacts in a hash table with separate chaining. This theory embeds
  \<open>createHashTable\<close>, \<open>hashFunction\<close>, \<open>insertContact\<close>, \<open>searchContact\<close>,
  \<open>deleteContact\<close> and \<open>displayContacts\<close> as HOL functions and proves properties of them.

  Conventions of the embedding:
  \<^item> C's \<open>char\<close> is \<^typ>\<open>char\<close> (a byte), and plain \<open>char\<close> is signed, as on the x86-64
    ABIs; \<open>int\<close> and \<open>unsigned int\<close> are \<^typ>\<open>32 word\<close>, \<open>unsigned long\<close> is
    \<^typ>\<open>64 word\<close> (LP64).
  \<^item> A \<open>const char *\<close> argument is the list of bytes it points to; the string it denotes
    ends at the first NUL byte, or at the end of the list (where the terminator sits).
  \<^item> The \<open>next\<close> pointers of a bucket are the order of a list of nodes: nodes are freshly
    allocated and owned by one chain, so no two chains share a node.
  \<^item> Undefined behaviour (a remainder by zero, an index outside the bucket array) is a
    value of type \<open>fault\<close>; what \<open>printf\<close> and \<open>perror\<close> write is returned as a value.
  \<^item> Whether \<open>malloc\<close> succeeds is an argument of the functions that call it.
\<close>

subsection \<open>Constants and data\<close>

definition TABLE_SIZE :: "32 word" where
  "TABLE_SIZE = 100"

definition MAX_NAME_LEN :: nat where
  "MAX_NAME_LEN = 50"

definition MAX_PHONE_LEN :: nat where
  "MAX_PHONE_LEN = 15"

abbreviation NUL :: char where
  "NUL \<equiv> CHR 0x00"

record ContactNode =
  name :: string
  phone :: string

text \<open>\<open>size_ht\<close> is the field \<open>size\<close> of the source (\<open>size\<close> is a constant of HOL).\<close>

record HashTable =
  size_ht :: "32 word"
  table :: "ContactNode list list"

datatype fault = DivisionByZero | OutOfBounds

datatype exit_status = EXIT_FAILURE

text \<open>One value per output call of the source: the text of a \<open>printf\<close>, or the prefix
  handed to \<open>perror\<close>.\<close>

datatype printed = Printf string | Perror string

subsection \<open>The C library on strings\<close>

definition c_str :: "string \<Rightarrow> string" where
  "c_str s = takeWhile (\<lambda>c. c \<noteq> NUL) s"

definition strlen :: "string \<Rightarrow> nat" where
  "strlen s = length (c_str s)"

text \<open>\<open>strncpy dst src n\<close> writes exactly \<open>n\<close> bytes: the bytes of \<open>src\<close> up to its
  terminator, then NUL bytes. The result is the \<open>n\<close> bytes written.\<close>

fun strncpy :: "string \<Rightarrow> nat \<Rightarrow> string" where
  "strncpy src 0 = []"
| "strncpy [] (Suc n) = NUL # strncpy [] n"
| "strncpy (c # cs) (Suc n) = (if c = NUL then NUL # strncpy [] n else c # strncpy cs n)"

text \<open>\<open>strcmp\<close> compares bytes as \<open>unsigned char\<close> up to the first difference or the
  terminator; only the sign of its result is specified.\<close>

fun strcmp :: "string \<Rightarrow> string \<Rightarrow> int" where
  "strcmp [] [] = 0"
| "strcmp [] (b # bs) = (if b = NUL then 0 else - 1)"
| "strcmp (a # as) [] = (if a = NUL then 0 else 1)"
| "strcmp (a # as) (b # bs) =
     (if a \<noteq> b then (if (of_char a :: nat) < of_char b then - 1 else 1)
      else if a = NUL then 0
      else strcmp as bs)"

subsection \<open>\<open>createHashTable\<close>\<close>

text \<open>The two flags say whether \<open>malloc\<close> and \<open>calloc\<close> succeed. \<open>calloc\<close> takes the
  count as a \<open>size_t\<close>; a negative \<open>size\<close> becomes a count whose byte size overflows, and
  \<open>calloc\<close> fails.\<close>

definition createHashTable :: "bool \<Rightarrow> bool \<Rightarrow> 32 word \<Rightarrow> exit_status + HashTable" where
  "createHashTable malloc_ok calloc_ok sz =
     (if \<not> malloc_ok then Inl EXIT_FAILURE
      else if \<not> calloc_ok \<or> sz <s 0 then Inl EXIT_FAILURE
      else Inr \<lparr>size_ht = sz, table = replicate (nat (sint sz)) []\<rparr>)"

subsection \<open>\<open>hashFunction\<close>\<close>

text \<open>\<open>c = *name++\<close> reads a \<open>char\<close> into an \<open>int\<close>: the byte is sign-extended.\<close>

definition char_to_int :: "char \<Rightarrow> 32 word" where
  "char_to_int ch = scast (of_char ch :: 8 word)"

text \<open>The \<open>while\<close> loop. In \<open>hash + c\<close> the \<open>int\<close> is converted to \<open>unsigned long\<close>,
  which sign-extends it again.\<close>

fun hash_loop :: "64 word \<Rightarrow> string \<Rightarrow> 64 word" where
  "hash_loop hash [] = hash"
| "hash_loop hash (ch # rest) =
     (let c = char_to_int ch in
      if c = 0 then hash
      else hash_loop ((push_bit 5 hash + hash) + scast c) rest)"

text \<open>\<open>hash % tableSize\<close> is computed in \<open>unsigned long\<close> and returned as
  \<open>unsigned int\<close>.\<close>

definition hashFunction :: "string \<Rightarrow> 32 word \<Rightarrow> fault + 32 word" where
  "hashFunction nm tableSize =
     (if tableSize = 0 then Inl DivisionByZero
      else Inr (ucast (hash_loop 5381 nm mod scast tableSize)))"

subsection \<open>\<open>insertContact\<close>\<close>

definition quote :: string where
  "quote = [CHR 0x27]"

definition new_node :: "string \<Rightarrow> string \<Rightarrow> ContactNode" where
  "new_node nm ph =
     \<lparr>name = strncpy nm (MAX_NAME_LEN - 1) @ [NUL],
      phone = strncpy ph (MAX_PHONE_LEN - 1) @ [NUL]\<rparr>"

definition added_message :: "string \<Rightarrow> string \<Rightarrow> string" where
  "added_message shown_name shown_phone =
     ''SUCCESS: Added '' @ quote @ shown_name @ quote @ '' with phone '' @ quote
       @ shown_phone @ quote @ ''.\<newline>''"

text \<open>\<open>%s\<close> prints the bytes of its argument up to the terminator; the arguments of the
  \<open>printf\<close> are the parameters \<open>name\<close> and \<open>phone\<close>.\<close>

definition insertContact ::
  "bool \<Rightarrow> HashTable \<Rightarrow> string \<Rightarrow> string \<Rightarrow> fault + HashTable \<times> printed" where
  "insertContact malloc_ok ht nm ph =
     (case hashFunction nm (size_ht ht) of
        Inl f \<Rightarrow> Inl f
      | Inr index \<Rightarrow>
          if \<not> malloc_ok then Inr (ht, Perror ''Failed to allocate ContactNode'')
          else if length (table ht) \<le> unat index then Inl OutOfBounds
          else
            Inr (ht\<lparr>table := (table ht)[unat index := new_node nm ph # table ht ! unat index]\<rparr>,
                 Printf (added_message (c_str nm) (c_str ph))))"

subsection \<open>\<open>searchContact\<close>\<close>

fun search_chain :: "ContactNode list \<Rightarrow> string \<Rightarrow> ContactNode option" where
  "search_chain [] nm = None"
| "search_chain (temp # rest) nm =
     (if strcmp (name temp) nm = 0 then Some temp else search_chain rest nm)"

definition searchContact :: "HashTable \<Rightarrow> string \<Rightarrow> fault + ContactNode option" where
  "searchContact ht nm =
     (case hashFunction nm (size_ht ht) of
        Inl f \<Rightarrow> Inl f
      | Inr index \<Rightarrow>
          if length (table ht) \<le> unat index then Inl OutOfBounds
          else Inr (search_chain (table ht ! unat index) nm))"

subsection \<open>\<open>deleteContact\<close>\<close>

text \<open>The loop of \<open>deleteContact\<close>: \<open>before\<close> holds the nodes already passed (it is empty
  exactly when \<open>prev\<close> is \<open>NULL\<close>), the second argument is the chain from \<open>current\<close> on.
  \<open>Some\<close> is the chain after unlinking, \<open>None\<close> means the loop ran to the end.\<close>

fun delete_loop :: "ContactNode list \<Rightarrow> ContactNode list \<Rightarrow> string \<Rightarrow> ContactNode list option" where
  "delete_loop before [] nm = None"
| "delete_loop before (current # rest) nm =
     (if strcmp (name current) nm = 0 then Some (before @ rest)
      else delete_loop (before @ [current]) rest nm)"

definition deleted_message :: "string \<Rightarrow> string" where
  "deleted_message shown_name = ''SUCCESS: Deleted '' @ quote @ shown_name @ quote @ ''.\<newline>''"

definition not_found_message :: "string \<Rightarrow> string" where
  "not_found_message shown_name =
     ''ERROR: Contact '' @ quote @ shown_name @ quote @ '' not found.\<newline>''"

definition deleteContact :: "HashTable \<Rightarrow> string \<Rightarrow> fault + HashTable \<times> printed" where
  "deleteContact ht nm =
     (case hashFunction nm (size_ht ht) of
        Inl f \<Rightarrow> Inl f
      | Inr index \<Rightarrow>
          if length (table ht) \<le> unat index then Inl OutOfBounds
          else
            (case delete_loop [] (table ht ! unat index) nm of
               Some chain \<Rightarrow>
                 Inr (ht\<lparr>table := (table ht)[unat index := chain]\<rparr>,
                      Printf (deleted_message (c_str nm)))
             | None \<Rightarrow>
                 Inr (ht, Printf (not_found_message (c_str nm)))))"

subsection \<open>\<open>displayContacts\<close>\<close>

text \<open>One value per \<open>printf\<close> of \<open>displayContacts\<close>, holding what its conversions print:
  \<open>Header\<close> is the title line, \<open>BucketLine i\<close> the line \<open>Bucket[i]:\<close>, \<open>ContactLine n p\<close> the
  line of one node with its name and phone up to their terminators (the padding of
  \<open>%-20s\<close> is left out), \<open>EmptyLine\<close> the line \<open>Phonebook is empty.\<close> and \<open>Footer\<close> the closing
  line of dashes.\<close>

datatype line = Header | BucketLine "32 word" | ContactLine string string | EmptyLine | Footer

fun print_chain :: "ContactNode list \<Rightarrow> line list" where
  "print_chain [] = []"
| "print_chain (temp # rest) =
     ContactLine (c_str (name temp)) (c_str (phone temp)) # print_chain rest"

text \<open>The \<open>for\<close> loop, from counter \<open>i\<close> on; \<open>emp\<close> is the variable \<open>empty\<close>.\<close>

function display_loop ::
  "HashTable \<Rightarrow> 32 word \<Rightarrow> bool \<Rightarrow> line list \<Rightarrow> fault + bool \<times> line list" where
  "display_loop ht i emp out =
     (if i <s size_ht ht then
        (if length (table ht) \<le> unat i then Inl OutOfBounds
         else (case table ht ! unat i of
                 [] \<Rightarrow> display_loop ht (i + 1) emp out
               | temp # rest \<Rightarrow>
                   display_loop ht (i + 1) False
                     (out @ BucketLine i # print_chain (temp # rest))))
      else Inr (emp, out))"
  by pat_completeness auto
termination
proof (relation "measure (\<lambda>(ht, i, emp, out). nat (sint (size_ht ht) - sint i))", goal_cases)
  case 1
  show ?case by simp
next
  case (2 ht i emp out)
  then have "sint i < sint (size_ht ht)" by (simp add: word_sless_alt)
  moreover have "sint (size_ht ht) < 2 ^ 31" using sint_lt [of "size_ht ht"] by simp
  moreover have "- (2 ^ 31) \<le> sint i" using sint_ge [of i] by simp
  ultimately show ?case
    by (simp add: sint_word_ariths signed_take_bit_int_eq_self)
next
  case (3 ht i emp out temp rest)
  then have "sint i < sint (size_ht ht)" by (simp add: word_sless_alt)
  moreover have "sint (size_ht ht) < 2 ^ 31" using sint_lt [of "size_ht ht"] by simp
  moreover have "- (2 ^ 31) \<le> sint i" using sint_ge [of i] by simp
  ultimately show ?case
    by (simp add: sint_word_ariths signed_take_bit_int_eq_self)
qed

text \<open>\<open>displayContacts\<close> takes the table by pointer; the table it leaves is returned with
  the lines printed.\<close>

definition displayContacts :: "HashTable \<Rightarrow> fault + HashTable \<times> line list" where
  "displayContacts ht =
     (case display_loop ht 0 True [Header] of
        Inl f \<Rightarrow> Inl f
      | Inr (emp, out) \<Rightarrow> Inr (ht, out @ (if emp then [EmptyLine] else []) @ [Footer]))"

subsection \<open>Sequences of calls\<close>

text \<open>The calls a client such as \<open>main\<close> makes on one table; \<open>Insert\<close> carries whether its
  \<open>malloc\<close> succeeds. A fault ends the run.\<close>

datatype operation = Insert bool string string | Delete string

fun step :: "HashTable \<Rightarrow> operation \<Rightarrow> fault + HashTable \<times> printed" where
  "step ht (Insert malloc_ok nm ph) = insertContact malloc_ok ht nm ph"
| "step ht (Delete nm) = deleteContact ht nm"

fun run :: "HashTable \<Rightarrow> operation list \<Rightarrow> fault + HashTable" where
  "run ht [] = Inr ht"
| "run ht (c # cs) = (case step ht c of Inl f \<Rightarrow> Inl f | Inr (ht', msg) \<Rightarrow> run ht' cs)"

definition search_after :: "HashTable \<Rightarrow> operation list \<Rightarrow> string \<Rightarrow> fault + ContactNode option" where
  "search_after ht cs nm = (case run ht cs of Inl f \<Rightarrow> Inl f | Inr ht' \<Rightarrow> searchContact ht' nm)"

text \<open>The table of \<open>main\<close>: \<open>createHashTable(TABLE_SIZE)\<close>, both allocations succeeding.\<close>

definition phonebook :: HashTable where
  "phonebook = projr (createHashTable True True TABLE_SIZE)"

subsection \<open>Well-formed tables\<close>

text \<open>A node holds two buffers of the declared lengths, each with a terminator inside.
  A table has a positive \<open>size\<close> and an array of that many buckets.\<close>

definition valid_node :: "ContactNode \<Rightarrow> bool" where
  "valid_node e \<longleftrightarrow>
     length (name e) = MAX_NAME_LEN \<and> strlen (name e) < MAX_NAME_LEN \<and>
     length (phone e) = MAX_PHONE_LEN \<and> strlen (phone e) < MAX_PHONE_LEN"

definition valid :: "HashTable \<Rightarrow> bool" where
  "valid ht \<longleftrightarrow>
     0 <s size_ht ht \<and> length (table ht) = nat (sint (size_ht ht)) \<and>
     list_all (list_all valid_node) (table ht)"

text \<open>An entry matches a query when \<open>strcmp\<close> finds them equal.\<close>

definition matches :: "string \<Rightarrow> ContactNode \<Rightarrow> bool" where
  "matches nm e \<longleftrightarrow> c_str (name e) = c_str nm"

definition entries :: "HashTable \<Rightarrow> ContactNode list" where
  "entries ht = concat (table ht)"

text \<open>The bucket invariant: the name stored in an entry of bucket \<open>i\<close> hashes to \<open>i\<close>.\<close>

definition bucket_inv :: "HashTable \<Rightarrow> bool" where
  "bucket_inv ht \<longleftrightarrow>
     (\<forall>i < length (table ht). \<forall>e \<in> set (table ht ! i).
        hashFunction (name e) (size_ht ht) = Inr (of_nat i))"

fun fits :: "operation \<Rightarrow> bool" where
  "fits (Insert malloc_ok nm ph) \<longleftrightarrow> strlen nm < MAX_NAME_LEN"
| "fits (Delete nm) \<longleftrightarrow> True"

subsection \<open>The hash of the specification\<close>

text \<open>The reference definition in the specification's words: start at 5381; for each byte,
  as an unsigned 8-bit value, \<open>accumulator * 33 + c\<close> modulo \<open>2 ^ N\<close>; the index is the
  final accumulator modulo the bucket count.\<close>

definition djb2_reference :: "nat \<Rightarrow> string \<Rightarrow> nat \<Rightarrow> nat" where
  "djb2_reference N bytes n =
     fold (\<lambda>c accumulator. (accumulator * 33 + of_char c) mod 2 ^ N) bytes 5381 mod n"

text \<open>The same with each byte read as a signed 8-bit value.\<close>

definition signed_byte :: "char \<Rightarrow> int" where
  "signed_byte c = (if (of_char c :: nat) < 128 then of_char c else of_char c - 256)"

definition djb2_signed :: "nat \<Rightarrow> string \<Rightarrow> int \<Rightarrow> int" where
  "djb2_signed N bytes n =
     fold (\<lambda>c accumulator. (accumulator * 33 + signed_byte c) mod 2 ^ N) bytes 5381 mod n"

subsection \<open>Reading the lines of \<open>displayContacts\<close>\<close>

text \<open>The contacts and the bucket indices among the lines printed, in the order printed;
  what a node shows in its line; and the lines of one bucket.\<close>

fun contacts_of :: "line list \<Rightarrow> (string \<times> string) list" where
  "contacts_of [] = []"
| "contacts_of (ContactLine n p # ls) = (n, p) # contacts_of ls"
| "contacts_of (l # ls) = contacts_of ls"

fun buckets_of :: "line list \<Rightarrow> 32 word list" where
  "buckets_of [] = []"
| "buckets_of (BucketLine i # ls) = i # buckets_of ls"
| "buckets_of (l # ls) = buckets_of ls"

definition shown :: "ContactNode \<Rightarrow> string \<times> string" where
  "shown e = (c_str (name e), c_str (phone e))"

definition bucket_lines :: "HashTable \<Rightarrow> nat \<Rightarrow> line list" where
  "bucket_lines ht j =
     (if table ht ! j = [] then [] else BucketLine (of_nat j) # print_chain (table ht ! j))"

section \<open>Proofs\<close>

declare display_loop.simps [simp del]

subsection \<open>Strings\<close>

lemma length_strncpy: "length (strncpy s n) = n"
  by (induction s n rule: strncpy.induct) auto

lemma c_str_Nil [simp]: "c_str [] = []"
  by (simp add: c_str_def)

lemma c_str_Cons: "c_str (c # cs) = (if c = NUL then [] else c # c_str cs)"
  by (simp add: c_str_def)

lemma c_str_idem: "c_str (c_str s) = c_str s"
  by (induction s) (auto simp: c_str_Cons)

lemma NUL_notin_c_str: "NUL \<notin> set (c_str s)"
  by (induction s) (auto simp: c_str_Cons)

lemma c_str_strncpy: "c_str (strncpy s n @ [NUL]) = take n (c_str s)"
  by (induction s n rule: strncpy.induct) (auto simp: c_str_Cons)

lemma strlen_strncpy: "strlen (strncpy s n @ [NUL]) = min n (strlen s)"
  by (simp add: strlen_def c_str_strncpy min.commute)

lemma strcmp_0_iff: "strcmp a b = 0 \<longleftrightarrow> c_str a = c_str b"
  by (induction a b rule: strcmp.induct) (auto simp: c_str_Cons)

subsection \<open>Bytes read as \<open>char\<close>\<close>

lemma of_char_less_256: "(of_char ch :: nat) < 256"
proof -
  have "(of_char ch :: nat) mod 256 < 256" by simp
  then show ?thesis by (simp only: of_char_mod_256)
qed

lemma signed_take_bit_upper:
  "2 ^ n \<le> k \<Longrightarrow> k < 2 ^ Suc n \<Longrightarrow> signed_take_bit n k = k - 2 ^ Suc n" for k :: int
proof -
  assume b: "2 ^ n \<le> k" "k < 2 ^ Suc n"
  have "take_bit (Suc n) k = take_bit (Suc n) (k - 2 ^ Suc n)"
    unfolding take_bit_eq_mod by (metis mod_diff_right_eq mod_self diff_zero)
  then have "signed_take_bit n k = signed_take_bit n (k - 2 ^ Suc n)"
    by (simp only: signed_take_bit_eq_iff_take_bit_eq)
  also have "\<dots> = k - 2 ^ Suc n"
    using b by (intro signed_take_bit_int_eq_self) simp_all
  finally show ?thesis .
qed

lemma signed_take_bit_byte:
  "0 \<le> k \<Longrightarrow> k < 256 \<Longrightarrow> signed_take_bit 7 k = (if k < 128 then k else k - 256)" for k :: int
  using signed_take_bit_upper [of 7 k] signed_take_bit_int_eq_self [of 7 k]
  by (cases "k < 128") simp_all

lemma sint_of_char: "sint (of_char ch :: 8 word) = signed_byte ch"
proof -
  define k where "k = int (of_char ch)"
  have r: "0 \<le> k" "k < 256"
    using of_char_less_256 [of ch] by (simp_all add: k_def)
  have ki: "(of_char ch :: int) = k"
    unfolding k_def by (rule of_nat_of_char [symmetric])
  have w: "(of_char ch :: 8 word) = word_of_int k"
  proof -
    have "(word_of_int (int (of_char ch)) :: 8 word) = of_nat (of_char ch)"
      by (rule of_int_of_nat_eq)
    also have "\<dots> = of_char ch"
      by (rule of_nat_of_char)
    finally show ?thesis by (simp only: k_def)
  qed
  have sb: "signed_byte ch = (if k < 128 then k else k - 256)"
    unfolding signed_byte_def ki by (simp add: k_def)
  have "sint (word_of_int k :: 8 word) = signed_take_bit 7 k"
    by (simp only: sint_sbintrunc') simp
  also have "\<dots> = (if k < 128 then k else k - 256)"
    using r by (rule signed_take_bit_byte)
  finally show ?thesis
    by (simp only: w sb)
qed

lemma signed_byte_range: "- 128 \<le> signed_byte ch" "signed_byte ch < 128"
proof -
  have "- (2 ^ (LENGTH(8) - 1)) \<le> sint (of_char ch :: 8 word)" by (rule sint_ge)
  then show "- 128 \<le> signed_byte ch" by (simp add: sint_of_char)
  have "sint (of_char ch :: 8 word) < 2 ^ (LENGTH(8) - 1)" by (rule sint_lt)
  then show "signed_byte ch < 128" by (simp add: sint_of_char)
qed

lemma of_char_nat_0_iff: "(of_char ch :: nat) = 0 \<longleftrightarrow> ch = NUL"
proof -
  have "(of_char ch :: nat) = of_char NUL \<longleftrightarrow> ch = NUL" by (rule of_char_eq_iff)
  then show ?thesis by simp
qed

lemma signed_byte_0_iff: "signed_byte ch = 0 \<longleftrightarrow> ch = NUL"
proof -
  define k where "k = (of_char ch :: nat)"
  have ki: "(of_char ch :: int) = int k"
    unfolding k_def by (rule of_nat_of_char [symmetric])
  have "k < 256" unfolding k_def by (rule of_char_less_256)
  then have "(if k < 128 then int k else int k - 256) = 0 \<longleftrightarrow> k = 0"
    by auto
  then have "signed_byte ch = 0 \<longleftrightarrow> (of_char ch :: nat) = 0"
    unfolding signed_byte_def ki by (simp only: k_def)
  then show ?thesis by (simp only: of_char_nat_0_iff)
qed

lemma char_to_int_eq: "char_to_int ch = word_of_int (signed_byte ch)"
  by (simp add: char_to_int_def scast_eq sint_of_char)

lemma sint_char_to_int: "sint (char_to_int ch) = signed_byte ch"
  unfolding char_to_int_def
  by (simp add: sint_up_scast is_up sint_of_char)

lemma scast_char_to_int: "(scast (char_to_int ch) :: 64 word) = word_of_int (signed_byte ch)"
  by (simp only: scast_eq sint_char_to_int)

lemma char_to_int_0_iff: "char_to_int ch = 0 \<longleftrightarrow> ch = NUL"
proof -
  have "char_to_int ch = 0 \<longleftrightarrow> sint (char_to_int ch) = 0"
    using signed_word_eqI [of "char_to_int ch" 0] by auto
  then show ?thesis by (simp only: sint_char_to_int signed_byte_0_iff)
qed

subsection \<open>The hash loop as arithmetic\<close>

lemma hash_loop_c_str: "hash_loop h (c_str s) = hash_loop h s"
  by (induction s arbitrary: h) (simp_all add: c_str_Cons char_to_int_0_iff Let_def)

lemma len64: "LENGTH(64) = 64"
  by simp

lemma uint_word64: "uint (word_of_int k :: 64 word) = k mod 2 ^ 64"
  using uint_word_of_int [where 'a = 64, of k] by (simp only: len64)

lemma hash_step:
  "push_bit 5 h + h + scast (char_to_int ch) = (word_of_int (uint h * 33 + signed_byte ch) :: 64 word)"
proof -
  have "push_bit 5 h + h = h * 33"
    by (simp add: push_bit_eq_mult)
  then show ?thesis
    by (simp add: scast_char_to_int)
qed

lemma small_mod64: "0 \<le> k \<Longrightarrow> k < 2 ^ 31 \<Longrightarrow> k mod 2 ^ 64 = k" for k :: int
proof -
  assume k: "0 \<le> k" "k < 2 ^ 31"
  have "(2::int) ^ 31 \<le> 2 ^ 64"
    by (rule power_increasing) simp_all
  with k(2) have "k < 2 ^ 64" by (rule less_le_trans)
  with k(1) show ?thesis by (rule mod_pos_pos_trivial)
qed

lemma uint_hash_loop:
  "uint (hash_loop h s) = fold (\<lambda>c a. (a * 33 + signed_byte c) mod 2 ^ 64) (c_str s) (uint h)"
proof (induction s arbitrary: h)
  case Nil
  show ?case by simp
next
  case (Cons ch s)
  show ?case
  proof (cases "ch = NUL")
    case True
    then show ?thesis by (simp add: c_str_Cons char_to_int_0_iff)
  next
    case False
    have "hash_loop h (ch # s) = hash_loop (word_of_int (uint h * 33 + signed_byte ch)) s"
      using False by (simp only: hash_loop.simps Let_def char_to_int_0_iff hash_step if_False)
    then have "uint (hash_loop h (ch # s)) =
        fold (\<lambda>c a. (a * 33 + signed_byte c) mod 2 ^ 64) (c_str s)
          ((uint h * 33 + signed_byte ch) mod 2 ^ 64)"
      by (simp only: Cons.IH uint_word64)
    moreover have "c_str (ch # s) = ch # c_str s"
      using False by (simp add: c_str_Cons)
    ultimately show ?thesis
      by (simp only: fold_simps)
  qed
qed

lemma uint_scast_size:
  "0 <s n \<Longrightarrow> uint (scast n :: 64 word) = sint n" for n :: "32 word"
proof -
  assume "0 <s n"
  then have "0 \<le> sint n" by (simp add: word_sless_alt)
  moreover have "sint n < 2 ^ 31" using sint_lt [of n] by simp
  ultimately have "sint n mod 2 ^ 64 = sint n" by (rule small_mod64)
  then show ?thesis
    by (simp only: scast_eq uint_word64)
qed

lemma uint_ucast_small:
  "uint w < 2 ^ 31 \<Longrightarrow> uint (ucast w :: 32 word) = uint w" for w :: "64 word"
proof -
  assume lt: "uint w < 2 ^ 31"
  have "(2::int) ^ 31 \<le> 2 ^ 32"
    by (rule power_increasing) simp_all
  with lt have "uint w < 2 ^ 32" by (rule less_le_trans)
  then have "uint w mod 2 ^ 32 = uint w"
    by (intro mod_pos_pos_trivial) simp_all
  moreover have "uint (word_of_int (uint w) :: 32 word) = uint w mod 2 ^ 32"
    using uint_word_of_int [where 'a = 32, of "uint w"] by simp
  ultimately show ?thesis
    by (simp only: ucast_eq)
qed

lemma hashFunction_value:
  assumes "0 <s n"
  shows "\<exists>h. hashFunction s n = Inr h \<and> uint h = uint (hash_loop 5381 s) mod sint n"
proof -
  from assms have pos: "0 < sint n" by (simp add: word_sless_alt)
  then have nz: "n \<noteq> 0" by auto
  have lt: "sint n < 2 ^ 31" using sint_lt [of n] by simp
  define m :: "64 word" where "m = hash_loop 5381 s mod scast n"
  have m: "uint m = uint (hash_loop 5381 s) mod sint n"
    unfolding m_def by (simp only: uint_mod uint_scast_size [OF assms])
  have "uint m < sint n"
    unfolding m using pos by (rule pos_mod_bound)
  with lt have "uint m < 2 ^ 31" by (rule less_trans [rotated])
  then have "uint (ucast m :: 32 word) = uint m"
    by (rule uint_ucast_small)
  moreover have "hashFunction s n = Inr (ucast m)"
    using nz by (simp add: hashFunction_def m_def)
  ultimately show ?thesis
    using m by simp
qed

lemma hashFunction_range:
  assumes "0 <s n" and "hashFunction s n = Inr h"
  shows "uint h < sint n" and "unat h < nat (sint n)"
proof -
  from assms(1) have pos: "0 < sint n" by (simp add: word_sless_alt)
  from hashFunction_value [OF assms(1), of s] assms(2)
  have "uint h = uint (hash_loop 5381 s) mod sint n" by auto
  then show "uint h < sint n" using pos by simp
  then show "unat h < nat (sint n)" using pos by (simp add: unat_eq_nat_uint nat_less_iff del: nat_uint_eq)
qed

lemma hashFunction_c_str: "hashFunction (c_str s) n = hashFunction s n"
  by (simp add: hashFunction_def hash_loop_c_str)

subsection \<open>\<open>hashFunction\<close> against the reference hash\<close>

lemma uint_5381: "uint (5381 :: 64 word) = 5381"
  by simp

lemma hashFunction_signed:
  assumes "0 <s n"
  shows "\<exists>h. hashFunction s n = Inr h \<and> uint h = djb2_signed 64 (c_str s) (sint n)"
  using hashFunction_value [OF assms, of s]
  by (simp only: uint_hash_loop uint_5381 djb2_signed_def)

lemma signed_byte_ascii: "(of_char c :: nat) < 128 \<Longrightarrow> signed_byte c = int (of_char c)"
  by (simp add: signed_byte_def of_nat_of_char)

lemma fold_ascii:
  "\<forall>c \<in> set bytes. (of_char c :: nat) < 128 \<Longrightarrow>
   fold (\<lambda>c a. (a * 33 + signed_byte c) mod 2 ^ N) bytes (int a0)
     = int (fold (\<lambda>c a. (a * 33 + of_char c) mod 2 ^ N) bytes a0)"
proof (induction bytes arbitrary: a0)
  case Nil
  show ?case by simp
next
  case (Cons c bytes)
  then have c: "signed_byte c = int (of_char c)"
    by (simp add: signed_byte_ascii)
  have "(int a0 * 33 + int (of_char c)) mod 2 ^ N = int ((a0 * 33 + of_char c) mod 2 ^ N)"
    by (simp add: zmod_int)
  with Cons c show ?case
    by simp
qed

lemma djb2_ascii:
  assumes "\<forall>c \<in> set bytes. (of_char c :: nat) < 128" and "0 \<le> n"
  shows "djb2_signed N bytes n = int (djb2_reference N bytes (nat n))"
proof -
  have "fold (\<lambda>c a. (a * 33 + signed_byte c) mod 2 ^ N) bytes 5381
     = int (fold (\<lambda>c a. (a * 33 + of_char c) mod 2 ^ N) bytes 5381)"
    using fold_ascii [OF assms(1), of N 5381] by simp
  with assms(2) show ?thesis
    by (simp add: djb2_signed_def djb2_reference_def zmod_int)
qed

subsection \<open>The operations on a well-formed table\<close>

lemma valid_hash:
  assumes "valid ht"
  shows "\<exists>i. hashFunction nm (size_ht ht) = Inr i \<and> unat i < length (table ht)"
proof -
  from assms have n: "0 <s size_ht ht" and len: "length (table ht) = nat (sint (size_ht ht))"
    by (simp_all add: valid_def)
  from hashFunction_value [OF n, of nm] obtain i where i: "hashFunction nm (size_ht ht) = Inr i"
    by blast
  from hashFunction_range(2) [OF n i] len i show ?thesis
    by simp
qed

lemma name_new_node: "c_str (name (new_node nm ph)) = take (MAX_NAME_LEN - 1) (c_str nm)"
  by (simp add: new_node_def c_str_strncpy)

lemma phone_new_node: "c_str (phone (new_node nm ph)) = take (MAX_PHONE_LEN - 1) (c_str ph)"
  by (simp add: new_node_def c_str_strncpy)

lemma name_new_node_fits:
  "strlen nm < MAX_NAME_LEN \<Longrightarrow> c_str (name (new_node nm ph)) = c_str nm"
  by (simp add: name_new_node strlen_def)

lemma phone_new_node_fits:
  "strlen ph < MAX_PHONE_LEN \<Longrightarrow> c_str (phone (new_node nm ph)) = c_str ph"
  by (simp add: phone_new_node strlen_def)

lemma valid_new_node: "valid_node (new_node nm ph)"
  by (simp add: valid_node_def new_node_def length_strncpy strlen_strncpy
      MAX_NAME_LEN_def MAX_PHONE_LEN_def min_less_iff_disj)

lemma insertContact_valid:
  assumes "valid ht" and "hashFunction nm (size_ht ht) = Inr i"
  shows "insertContact True ht nm ph =
           Inr (ht\<lparr>table := (table ht)[unat i := new_node nm ph # table ht ! unat i]\<rparr>,
                Printf (added_message (c_str nm) (c_str ph)))"
  using valid_hash [OF assms(1), of nm] assms(2)
  by (simp add: insertContact_def)

lemma insertContact_no_memory:
  assumes "valid ht"
  shows "insertContact False ht nm ph = Inr (ht, Perror ''Failed to allocate ContactNode'')"
  using valid_hash [OF assms(1), of nm]
  by (auto simp: insertContact_def)

lemma searchContact_valid:
  assumes "valid ht" and "hashFunction nm (size_ht ht) = Inr i"
  shows "searchContact ht nm = Inr (search_chain (table ht ! unat i) nm)"
  using valid_hash [OF assms(1), of nm] assms(2)
  by (simp add: searchContact_def)

lemma deleteContact_valid:
  assumes "valid ht" and "hashFunction nm (size_ht ht) = Inr i"
  shows "deleteContact ht nm =
    (case delete_loop [] (table ht ! unat i) nm of
       Some chain \<Rightarrow> Inr (ht\<lparr>table := (table ht)[unat i := chain]\<rparr>,
                         Printf (deleted_message (c_str nm)))
     | None \<Rightarrow> Inr (ht, Printf (not_found_message (c_str nm))))"
  using valid_hash [OF assms(1), of nm] assms(2)
  by (simp add: deleteContact_def)

lemma search_chain_find: "search_chain chain nm = find (matches nm) chain"
  by (induction chain) (simp_all add: strcmp_0_iff matches_def)

lemma delete_loop_None:
  "delete_loop before chain nm = None \<longleftrightarrow> (\<forall>e \<in> set chain. \<not> matches nm e)"
  by (induction chain arbitrary: before) (simp_all add: strcmp_0_iff matches_def)

lemma delete_loop_first:
  "\<forall>x \<in> set pre. \<not> matches nm x \<Longrightarrow> matches nm e \<Longrightarrow>
   delete_loop before (pre @ e # post) nm = Some (before @ pre @ post)"
  by (induction pre arbitrary: before) (simp_all add: strcmp_0_iff matches_def)

lemma first_match:
  assumes "\<exists>e \<in> set chain. matches nm e"
  shows "\<exists>pre e post. chain = pre @ e # post \<and> (\<forall>x \<in> set pre. \<not> matches nm x) \<and> matches nm e"
  using split_list_first_prop [OF assms] by blast

subsection \<open>Well-formedness is kept\<close>

lemma valid_create:
  assumes "0 <s n"
  shows "createHashTable True True n = Inr \<lparr>size_ht = n, table = replicate (nat (sint n)) []\<rparr>"
    and "valid \<lparr>size_ht = n, table = replicate (nat (sint n)) []\<rparr>"
proof -
  from assms have "0 < sint n" by (simp add: word_sless_alt)
  then have "\<not> n <s 0" by (simp add: word_sless_alt)
  then show "createHashTable True True n = Inr \<lparr>size_ht = n, table = replicate (nat (sint n)) []\<rparr>"
    by (simp add: createHashTable_def)
  show "valid \<lparr>size_ht = n, table = replicate (nat (sint n)) []\<rparr>"
    using assms by (simp add: valid_def list_all_iff)
qed

lemma phonebook_eq: "phonebook = \<lparr>size_ht = 100, table = replicate 100 []\<rparr>"
proof -
  have "0 <s (100 :: 32 word)" by (simp add: word_sless_alt)
  from valid_create(1) [OF this] show ?thesis
    by (simp add: phonebook_def TABLE_SIZE_def)
qed

lemma valid_phonebook: "valid phonebook"
proof -
  have "0 <s (100 :: 32 word)" by (simp add: word_sless_alt)
  from valid_create(2) [OF this] show ?thesis
    by (simp add: phonebook_eq)
qed

lemma valid_update:
  assumes "valid ht" and "list_all valid_node chain"
  shows "valid (ht\<lparr>table := (table ht)[k := chain]\<rparr>)"
proof -
  from assms(1) have "\<forall>n < length (table ht). list_all valid_node (table ht ! n)"
    by (simp add: valid_def list_all_length [of "list_all valid_node"])
  with assms(2) have "\<forall>n < length (table ht). list_all valid_node ((table ht)[k := chain] ! n)"
    by (metis nth_list_update_eq nth_list_update_neq)
  then have "list_all (list_all valid_node) ((table ht)[k := chain])"
    by (simp add: list_all_length [of "list_all valid_node"])
  with assms(1) show ?thesis by (simp add: valid_def)
qed

lemma valid_chain:
  "valid ht \<Longrightarrow> k < length (table ht) \<Longrightarrow> list_all valid_node (table ht ! k)"
  by (simp add: valid_def list_all_length [of "list_all valid_node"])

lemma valid_insert:
  assumes "valid ht" and "insertContact m ht nm ph = Inr (ht', msg)"
  shows "valid ht'"
proof -
  from valid_hash [OF assms(1), of nm] obtain i
    where i: "hashFunction nm (size_ht ht) = Inr i" "unat i < length (table ht)" by blast
  show ?thesis
  proof (cases m)
    case True
    have "list_all valid_node (new_node nm ph # table ht ! unat i)"
      using valid_chain [OF assms(1) i(2)] by (simp add: valid_new_node)
    from valid_update [OF assms(1) this, of "unat i"] assms(2) True i show ?thesis
      by (simp add: insertContact_def)
  next
    case False
    with assms i show ?thesis by (simp add: insertContact_def)
  qed
qed

lemma valid_delete:
  assumes "valid ht" and "deleteContact ht nm = Inr (ht', msg)"
  shows "valid ht'"
proof -
  from valid_hash [OF assms(1), of nm] obtain i
    where i: "hashFunction nm (size_ht ht) = Inr i" "unat i < length (table ht)" by blast
  show ?thesis
  proof (cases "delete_loop [] (table ht ! unat i) nm")
    case None
    with assms i show ?thesis by (simp add: deleteContact_def)
  next
    case (Some chain)
    have "\<exists>e \<in> set (table ht ! unat i). matches nm e"
      using Some delete_loop_None [of "[]" "table ht ! unat i" nm] by auto
    from first_match [OF this] obtain pre e post
      where d: "table ht ! unat i = pre @ e # post" "\<forall>x \<in> set pre. \<not> matches nm x" "matches nm e"
      by blast
    from delete_loop_first [OF d(2,3), of "[]" post] Some d(1) have "chain = pre @ post"
      by simp
    with valid_chain [OF assms(1) i(2)] d(1) have "list_all valid_node chain"
      by simp
    from valid_update [OF assms(1) this, of "unat i"] assms(2) Some i show ?thesis
      by (simp add: deleteContact_def)
  qed
qed

lemma step_total:
  assumes "valid ht"
  shows "\<exists>ht' msg. step ht c = Inr (ht', msg)"
proof (cases c)
  case (Insert m nm ph)
  from valid_hash [OF assms, of nm] show ?thesis
    by (auto simp: Insert insertContact_def)
next
  case (Delete nm)
  from valid_hash [OF assms, of nm] show ?thesis
    by (auto simp: Delete deleteContact_def split: option.split)
qed

lemma valid_step: "valid ht \<Longrightarrow> step ht c = Inr (ht', msg) \<Longrightarrow> valid ht'"
  by (cases c) (auto intro: valid_insert valid_delete)

lemma run_total: "valid ht \<Longrightarrow> \<exists>ht'. run ht cs = Inr ht' \<and> valid ht'"
proof (induction cs arbitrary: ht)
  case Nil
  then show ?case by simp
next
  case (Cons c cs)
  from step_total [OF Cons.prems, of c] obtain ht1 msg where s: "step ht c = Inr (ht1, msg)"
    by blast
  from valid_step [OF Cons.prems s] have "valid ht1" .
  from Cons.IH [OF this] s show ?case by simp
qed

subsection \<open>Insert, then search or delete\<close>

lemma search_new_node:
  "strlen nm < MAX_NAME_LEN \<Longrightarrow> search_chain (new_node nm ph # chain) nm = Some (new_node nm ph)"
  by (simp add: strcmp_0_iff name_new_node_fits)

lemma delete_new_node:
  "strlen nm < MAX_NAME_LEN \<Longrightarrow> delete_loop [] (new_node nm ph # chain) nm = Some chain"
  by (simp add: strcmp_0_iff name_new_node_fits)

lemma insert_search:
  assumes "valid ht" and "strlen nm < MAX_NAME_LEN"
    and "insertContact True ht nm ph = Inr (ht', msg)"
  shows "searchContact ht' nm = Inr (Some (new_node nm ph))"
proof -
  from valid_hash [OF assms(1), of nm] obtain i
    where i: "hashFunction nm (size_ht ht) = Inr i" "unat i < length (table ht)" by blast
  from insertContact_valid [OF assms(1) i(1), of ph] assms(3)
  have ht': "ht' = ht\<lparr>table := (table ht)[unat i := new_node nm ph # table ht ! unat i]\<rparr>"
    by simp
  from valid_insert [OF assms(1,3)] have "valid ht'" .
  moreover have "hashFunction nm (size_ht ht') = Inr i"
    using i(1) by (simp add: ht')
  ultimately have "searchContact ht' nm = Inr (search_chain (table ht' ! unat i) nm)"
    by (rule searchContact_valid)
  also have "table ht' ! unat i = new_node nm ph # table ht ! unat i"
    using i(2) by (simp add: ht')
  finally show ?thesis
    by (simp only: search_new_node [OF assms(2)])
qed

lemma insert_delete:
  assumes "valid ht" and "strlen nm < MAX_NAME_LEN"
    and "insertContact True ht nm ph = Inr (ht', msg)"
  shows "deleteContact ht' nm = Inr (ht, Printf (deleted_message (c_str nm)))"
proof -
  from valid_hash [OF assms(1), of nm] obtain i
    where i: "hashFunction nm (size_ht ht) = Inr i" "unat i < length (table ht)" by blast
  from insertContact_valid [OF assms(1) i(1), of ph] assms(3)
  have ht': "ht' = ht\<lparr>table := (table ht)[unat i := new_node nm ph # table ht ! unat i]\<rparr>"
    by simp
  from valid_insert [OF assms(1,3)] have v: "valid ht'" .
  have h: "hashFunction nm (size_ht ht') = Inr i"
    using i(1) by (simp add: ht')
  have c: "table ht' ! unat i = new_node nm ph # table ht ! unat i"
    using i(2) by (simp add: ht')
  have "ht'\<lparr>table := (table ht')[unat i := table ht ! unat i]\<rparr> = ht"
    by (simp add: ht')
  moreover have "delete_loop [] (table ht' ! unat i) nm = Some (table ht ! unat i)"
    unfolding c by (rule delete_new_node [OF assms(2)])
  ultimately show ?thesis
    by (simp only: deleteContact_valid [OF v h] option.case)
qed

subsection \<open>Delete\<close>

lemma length_entries: "length (entries ht) = sum_list (map length (table ht))"
  by (simp add: entries_def length_concat)

lemma length_entries_update:
  assumes "k < length (table ht)"
  shows "length (entries (ht\<lparr>table := (table ht)[k := chain]\<rparr>)) + length (table ht ! k)
           = length (entries ht) + length chain"
proof -
  have "length (table ht ! k) \<in> set (map length (table ht))"
    using assms by simp
  then have "length (table ht ! k) \<le> sum_list (map length (table ht))"
    by (rule member_le_sum_list) simp
  then have "sum_list ((map length (table ht))[k := length chain]) + map length (table ht) ! k
          = sum_list (map length (table ht)) + length chain"
    using assms by (simp add: sum_list_update)
  with assms show ?thesis
    by (simp add: length_entries map_update)
qed

lemma delete_first_match:
  assumes "valid ht" and "hashFunction nm (size_ht ht) = Inr i"
    and "table ht ! unat i = pre @ e # post"
    and "\<forall>x \<in> set pre. \<not> matches nm x" and "matches nm e"
  shows "deleteContact ht nm =
           Inr (ht\<lparr>table := (table ht)[unat i := pre @ post]\<rparr>, Printf (deleted_message (c_str nm)))"
  using delete_loop_first [OF assms(4,5), of "[]" post]
  by (simp add: deleteContact_valid [OF assms(1,2)] assms(3))

lemma delete_no_match:
  assumes "valid ht" and "hashFunction nm (size_ht ht) = Inr i"
    and "\<forall>e \<in> set (table ht ! unat i). \<not> matches nm e"
  shows "deleteContact ht nm = Inr (ht, Printf (not_found_message (c_str nm)))"
proof -
  from assms(3) have "delete_loop [] (table ht ! unat i) nm = None"
    by (simp only: delete_loop_None)
  then show ?thesis
    by (simp add: deleteContact_valid [OF assms(1,2)])
qed

lemma delete_once:
  assumes "valid ht" and "hashFunction nm (size_ht ht) = Inr i"
    and "filter (matches nm) (table ht ! unat i) \<noteq> []"
  shows "\<exists>pre e post.
           table ht ! unat i = pre @ e # post \<and> (\<forall>x \<in> set pre. \<not> matches nm x) \<and> matches nm e \<and>
           deleteContact ht nm =
             Inr (ht\<lparr>table := (table ht)[unat i := pre @ post]\<rparr>,
                  Printf (deleted_message (c_str nm))) \<and>
           valid (ht\<lparr>table := (table ht)[unat i := pre @ post]\<rparr>) \<and>
           length (entries (ht\<lparr>table := (table ht)[unat i := pre @ post]\<rparr>)) + 1
             = length (entries ht) \<and>
           filter (matches nm) (pre @ post) = tl (filter (matches nm) (table ht ! unat i))"
proof -
  from valid_hash [OF assms(1), of nm] assms(2) have i: "unat i < length (table ht)"
    by simp
  from assms(3) have "\<exists>e \<in> set (table ht ! unat i). matches nm e"
    by (simp add: filter_empty_conv)
  from first_match [OF this] obtain pre e post
    where d: "table ht ! unat i = pre @ e # post" "\<forall>x \<in> set pre. \<not> matches nm x" "matches nm e"
    by blast
  let ?ht' = "ht\<lparr>table := (table ht)[unat i := pre @ post]\<rparr>"
  have del: "deleteContact ht nm = Inr (?ht', Printf (deleted_message (c_str nm)))"
    by (rule delete_first_match [OF assms(1,2) d])
  from valid_delete [OF assms(1) del] have v: "valid ?ht'" .
  from length_entries_update [OF i, of "pre @ post"] d(1)
  have n: "length (entries ?ht') + 1 = length (entries ht)"
    by simp
  from d(2) have "filter (matches nm) pre = []"
    by (simp add: filter_empty_conv)
  with d(3) have "filter (matches nm) (pre @ post) = tl (filter (matches nm) (pre @ e # post))"
    by simp
  with d del v n show ?thesis
    by (simp only:) blast
qed

lemma delete_many:
  assumes "valid ht" and "hashFunction nm (size_ht ht) = Inr i"
    and "j \<le> length (filter (matches nm) (table ht ! unat i))"
  shows "\<exists>htj. run ht (replicate j (Delete nm)) = Inr htj \<and>
           length (filter (matches nm) (table htj ! unat i)) + j
             = length (filter (matches nm) (table ht ! unat i)) \<and>
           length (entries htj) + j = length (entries ht)"
  using assms
proof (induction j arbitrary: ht)
  case 0
  show ?case by simp
next
  case (Suc j)
  from Suc.prems(3) have ne: "filter (matches nm) (table ht ! unat i) \<noteq> []"
    by auto
  from valid_hash [OF Suc.prems(1), of nm] Suc.prems(2) have i: "unat i < length (table ht)"
    by simp
  from delete_once [OF Suc.prems(1,2) ne] obtain pre post where
    del: "deleteContact ht nm =
             Inr (ht\<lparr>table := (table ht)[unat i := pre @ post]\<rparr>,
                  Printf (deleted_message (c_str nm)))"
    and v: "valid (ht\<lparr>table := (table ht)[unat i := pre @ post]\<rparr>)"
    and n: "length (entries (ht\<lparr>table := (table ht)[unat i := pre @ post]\<rparr>)) + 1
             = length (entries ht)"
    and f: "filter (matches nm) (pre @ post) = tl (filter (matches nm) (table ht ! unat i))"
    by blast
  define ht1 where "ht1 = ht\<lparr>table := (table ht)[unat i := pre @ post]\<rparr>"
  have c1: "table ht1 ! unat i = pre @ post"
    using i by (simp add: ht1_def)
  have h1: "hashFunction nm (size_ht ht1) = Inr i"
    using Suc.prems(2) by (simp add: ht1_def)
  have k1: "length (filter (matches nm) (table ht1 ! unat i)) + 1
              = length (filter (matches nm) (table ht ! unat i))"
  proof -
    have "length (tl (filter (matches nm) (table ht ! unat i))) + 1
            = length (filter (matches nm) (table ht ! unat i))"
      using ne by (cases "filter (matches nm) (table ht ! unat i)") simp_all
    then show ?thesis by (simp only: c1 f)
  qed
  with Suc.prems(3) have j1: "j \<le> length (filter (matches nm) (table ht1 ! unat i))"
    by simp
  from Suc.IH [OF v [folded ht1_def] h1 j1] obtain htj where
    "run ht1 (replicate j (Delete nm)) = Inr htj"
    "length (filter (matches nm) (table htj ! unat i)) + j
       = length (filter (matches nm) (table ht1 ! unat i))"
    "length (entries htj) + j = length (entries ht1)"
    by blast
  with del k1 n show ?case
    by (simp add: ht1_def)
qed

lemma valid_projr_run: "valid ht \<Longrightarrow> valid (projr (run ht cs))"
  using run_total [of ht cs] by auto

subsection \<open>The bucket invariant\<close>

lemma bucket_inv_update:
  assumes "bucket_inv ht"
    and "\<forall>e \<in> set chain. hashFunction (name e) (size_ht ht) = Inr (of_nat k)"
  shows "bucket_inv (ht\<lparr>table := (table ht)[k := chain]\<rparr>)"
  unfolding bucket_inv_def
proof (intro allI impI ballI)
  fix j e
  assume j: "j < length (table (ht\<lparr>table := (table ht)[k := chain]\<rparr>))"
    and e: "e \<in> set (table (ht\<lparr>table := (table ht)[k := chain]\<rparr>) ! j)"
  show "hashFunction (name e) (size_ht (ht\<lparr>table := (table ht)[k := chain]\<rparr>)) = Inr (of_nat j)"
  proof (cases "j = k")
    case True
    with j e assms(2) show ?thesis by simp
  next
    case False
    with j e assms(1) show ?thesis by (simp add: bucket_inv_def)
  qed
qed

lemma hash_new_node:
  "strlen nm < MAX_NAME_LEN \<Longrightarrow> hashFunction (name (new_node nm ph)) n = hashFunction nm n"
proof -
  assume "strlen nm < MAX_NAME_LEN"
  then have "c_str (name (new_node nm ph)) = c_str nm"
    by (rule name_new_node_fits)
  then have "hashFunction (c_str (name (new_node nm ph))) n = hashFunction (c_str nm) n"
    by simp
  then show ?thesis
    by (simp only: hashFunction_c_str)
qed

lemma bucket_inv_insert:
  assumes "bucket_inv ht" and "strlen nm < MAX_NAME_LEN"
    and "insertContact m ht nm ph = Inr (ht', msg)"
  shows "bucket_inv ht'"
proof (cases "hashFunction nm (size_ht ht)")
  case (Inl f)
  with assms(3) show ?thesis by (simp add: insertContact_def)
next
  case (Inr i)
  show ?thesis
  proof (cases "m \<and> unat i < length (table ht)")
    case False
    with assms(1,3) Inr show ?thesis
      by (auto simp: insertContact_def split: if_splits)
  next
    case True
    with assms(3) Inr
    have ht': "ht' = ht\<lparr>table := (table ht)[unat i := new_node nm ph # table ht ! unat i]\<rparr>"
      by (simp add: insertContact_def)
    from assms(1) True
    have "\<forall>e \<in> set (table ht ! unat i). hashFunction (name e) (size_ht ht) = Inr (of_nat (unat i))"
      unfolding bucket_inv_def by blast
    then have "\<forall>e \<in> set (new_node nm ph # table ht ! unat i).
            hashFunction (name e) (size_ht ht) = Inr (of_nat (unat i))"
      using Inr by (simp add: hash_new_node [OF assms(2)])
    from bucket_inv_update [OF assms(1) this] show ?thesis
      by (simp only: ht')
  qed
qed

lemma set_delete_loop:
  "delete_loop before chain nm = Some chain' \<Longrightarrow> set chain' \<subseteq> set before \<union> set chain"
proof (induction chain arbitrary: before)
  case Nil
  then show ?case by simp
next
  case (Cons c chain)
  show ?case
  proof (cases "strcmp (name c) nm = 0")
    case True
    with Cons.prems show ?thesis by auto
  next
    case False
    with Cons.prems have "delete_loop (before @ [c]) chain nm = Some chain'"
      by simp
    from Cons.IH [OF this] show ?thesis by auto
  qed
qed

lemma bucket_inv_delete:
  assumes "bucket_inv ht" and "deleteContact ht nm = Inr (ht', msg)"
  shows "bucket_inv ht'"
proof (cases "hashFunction nm (size_ht ht)")
  case (Inl f)
  with assms(2) show ?thesis by (simp add: deleteContact_def)
next
  case (Inr i)
  show ?thesis
  proof (cases "delete_loop [] (table ht ! unat i) nm")
    case None
    with assms Inr show ?thesis
      by (auto simp: deleteContact_def split: if_splits)
  next
    case (Some chain)
    with assms(2) Inr have i: "unat i < length (table ht)"
      and ht': "ht' = ht\<lparr>table := (table ht)[unat i := chain]\<rparr>"
      by (auto simp: deleteContact_def split: if_splits)
    from set_delete_loop [OF Some] have "set chain \<subseteq> set (table ht ! unat i)"
      by simp
    with assms(1) i have "\<forall>e \<in> set chain. hashFunction (name e) (size_ht ht) = Inr (of_nat (unat i))"
      by (auto simp: bucket_inv_def)
    from bucket_inv_update [OF assms(1) this] show ?thesis
      by (simp only: ht')
  qed
qed

lemma bucket_inv_create: "createHashTable m c n = Inr ht \<Longrightarrow> bucket_inv ht"
  by (auto simp: createHashTable_def bucket_inv_def split: if_splits)

lemma bucket_inv_run:
  "bucket_inv ht \<Longrightarrow> list_all fits cs \<Longrightarrow> run ht cs = Inr ht' \<Longrightarrow> bucket_inv ht'"
proof (induction cs arbitrary: ht)
  case Nil
  then show ?case by simp
next
  case (Cons c cs)
  from Cons.prems(3) obtain ht1 msg where s: "step ht c = Inr (ht1, msg)" and r: "run ht1 cs = Inr ht'"
    by (auto split: sum.splits)
  have "bucket_inv ht1"
  proof (cases c)
    case (Insert m nm ph)
    with Cons.prems(1,2) s show ?thesis
      by (auto intro: bucket_inv_insert)
  next
    case (Delete nm)
    with Cons.prems(1) s show ?thesis
      by (auto intro: bucket_inv_delete)
  qed
  from Cons.IH [OF this _ r] Cons.prems(2) show ?case
    by simp
qed

subsection \<open>The loop of \<open>displayContacts\<close>\<close>

lemma sint_of_nat_small: "k < 2 ^ 31 \<Longrightarrow> sint (of_nat k :: 32 word) = int k"
proof -
  assume "k < 2 ^ 31"
  then have "int k < 2 ^ 31" by (metis of_nat_less_numeral_power_cancel_iff)
  moreover have "- (2 ^ 31) \<le> int k" by simp
  ultimately have "signed_take_bit 31 (int k) = int k"
    by (intro signed_take_bit_int_eq_self)
  moreover have "sint (word_of_int (int k) :: 32 word) = signed_take_bit 31 (int k)"
    by (simp only: sint_sbintrunc') simp
  ultimately show ?thesis by simp
qed

lemma unat_of_nat_small: "k < 2 ^ 31 \<Longrightarrow> unat (of_nat k :: 32 word) = k"
proof -
  assume "k < 2 ^ 31"
  then have "k < 2 ^ 32" by simp
  then show ?thesis by (intro of_nat_inverse) simp_all
qed

lemma table_small:
  assumes "valid ht"
  shows "length (table ht) < 2 ^ 31" and "int (length (table ht)) = sint (size_ht ht)"
proof -
  from assms have l: "length (table ht) = nat (sint (size_ht ht))" and p: "0 < sint (size_ht ht)"
    by (simp_all add: valid_def word_sless_alt)
  from p l show "int (length (table ht)) = sint (size_ht ht)" by simp
  moreover have "sint (size_ht ht) < 2 ^ 31" using sint_lt [of "size_ht ht"] by simp
  ultimately have "int (length (table ht)) < 2 ^ 31" by simp
  then show "length (table ht) < 2 ^ 31" by (metis of_nat_less_numeral_power_cancel_iff)
qed

lemma display_loop_step:
  assumes "valid ht" and "k < length (table ht)"
  shows "display_loop ht (of_nat k) emp out =
           display_loop ht (of_nat (Suc k)) (emp \<and> table ht ! k = []) (out @ bucket_lines ht k)"
proof -
  from table_small [OF assms(1)] assms(2) have k: "k < 2 ^ 31" and s: "int k < sint (size_ht ht)"
    by simp_all
  from s have lt: "(of_nat k :: 32 word) <s size_ht ht"
    by (simp add: word_sless_alt sint_of_nat_small [OF k])
  have u: "unat (of_nat k :: 32 word) = k"
    by (rule unat_of_nat_small [OF k])
  have n: "(of_nat k :: 32 word) + 1 = of_nat (Suc k)"
    by simp
  have "display_loop ht (of_nat k) emp out =
      (case table ht ! k of
         [] \<Rightarrow> display_loop ht (of_nat (Suc k)) emp out
       | temp # rest \<Rightarrow>
           display_loop ht (of_nat (Suc k)) False
             (out @ BucketLine (of_nat k) # print_chain (temp # rest)))"
    using lt assms(2) display_loop.simps [of ht "of_nat k" emp out]
    by (simp only: u n if_True not_le [symmetric] if_False not_not)
  then show ?thesis
    by (cases "table ht ! k") (simp_all add: bucket_lines_def)
qed

lemma display_loop_end:
  assumes "valid ht"
  shows "display_loop ht (of_nat (length (table ht))) emp out = Inr (emp, out)"
proof -
  from table_small [OF assms(1)] have k: "length (table ht) < 2 ^ 31"
    and s: "int (length (table ht)) = sint (size_ht ht)"
    by simp_all
  have "\<not> (of_nat (length (table ht)) :: 32 word) <s size_ht ht"
    by (simp add: word_sless_alt sint_of_nat_small [OF k] s)
  then show ?thesis
    using display_loop.simps [of ht "of_nat (length (table ht))" emp out] by simp
qed

lemma display_loop_from:
  assumes "valid ht" and "k \<le> length (table ht)"
  shows "display_loop ht (of_nat k) emp out =
           Inr (emp \<and> concat (drop k (table ht)) = [],
                out @ concat (map (bucket_lines ht) [k ..< length (table ht)]))"
  using assms(2)
proof (induction "length (table ht) - k" arbitrary: k emp out)
  case 0
  then have "k = length (table ht)" by simp
  then show ?case by (simp add: display_loop_end [OF assms(1)])
next
  case (Suc d)
  then have k: "k < length (table ht)" by simp
  then have d: "drop k (table ht) = table ht ! k # drop (Suc k) (table ht)"
    by (simp add: Cons_nth_drop_Suc)
  have u: "[k ..< length (table ht)] = k # [Suc k ..< length (table ht)]"
    using k by (simp add: upt_conv_Cons)
  from Suc(2) have "d = length (table ht) - Suc k" by simp
  from Suc(1) [OF this, of "emp \<and> table ht ! k = []" "out @ bucket_lines ht k"] k
  show ?case
    by (simp add: display_loop_step [OF assms(1) k] d u conj_assoc)
qed

lemma contacts_of_append: "contacts_of (a @ b) = contacts_of a @ contacts_of b"
  by (induction a rule: contacts_of.induct) simp_all

lemma buckets_of_append: "buckets_of (a @ b) = buckets_of a @ buckets_of b"
  by (induction a rule: buckets_of.induct) simp_all

lemma contacts_of_print_chain: "contacts_of (print_chain chain) = map shown chain"
  by (induction chain) (simp_all add: shown_def)

lemma buckets_of_print_chain: "buckets_of (print_chain chain) = []"
  by (induction chain) simp_all

lemma contacts_of_bucket_lines: "contacts_of (bucket_lines ht j) = map shown (table ht ! j)"
  by (simp add: bucket_lines_def contacts_of_print_chain)

lemma buckets_of_bucket_lines:
  "buckets_of (bucket_lines ht j) = (if table ht ! j = [] then [] else [of_nat j])"
  by (simp add: bucket_lines_def buckets_of_print_chain)

lemma contacts_of_concat: "contacts_of (concat ls) = concat (map contacts_of ls)"
  by (induction ls) (simp_all add: contacts_of_append)

lemma buckets_of_concat: "buckets_of (concat ls) = concat (map buckets_of ls)"
  by (induction ls) (simp_all add: buckets_of_append)

lemma contacts_of_buckets:
  "contacts_of (concat (map (bucket_lines ht) [0 ..< length (table ht)]))
     = map shown (concat (table ht))"
proof -
  have "map (\<lambda>j. map shown (table ht ! j)) [0 ..< length (table ht)]
          = map (map shown) (map ((!) (table ht)) [0 ..< length (table ht)])"
    by simp
  also have "\<dots> = map (map shown) (table ht)"
    by (simp only: map_nth)
  finally show ?thesis
    by (simp add: contacts_of_concat contacts_of_bucket_lines comp_def map_concat)
qed

lemma buckets_of_buckets:
  "buckets_of (concat (map (bucket_lines ht) js))
     = map of_nat (filter (\<lambda>j. table ht ! j \<noteq> []) js)"
  by (induction js) (simp_all add: buckets_of_append buckets_of_bucket_lines)

lemma displayContacts_lines:
  assumes "valid ht"
  shows "displayContacts ht =
           Inr (ht, Header # concat (map (bucket_lines ht) [0 ..< length (table ht)])
                      @ (if entries ht = [] then [EmptyLine] else []) @ [Footer])"
  using display_loop_from [OF assms, of 0 True "[Header]"]
  by (simp add: displayContacts_def entries_def)

lemma entries_insert:
  assumes "valid ht" and "insertContact True ht nm ph = Inr (ht', msg)"
  shows "length (entries ht') = Suc (length (entries ht))"
proof -
  from valid_hash [OF assms(1), of nm] obtain i
    where i: "hashFunction nm (size_ht ht) = Inr i" "unat i < length (table ht)" by blast
  from insertContact_valid [OF assms(1) i(1), of ph] assms(2)
  have "ht' = ht\<lparr>table := (table ht)[unat i := new_node nm ph # table ht ! unat i]\<rparr>"
    by simp
  with length_entries_update [OF i(2), of "new_node nm ph # table ht ! unat i"] show ?thesis
    by simp
qed

lemma run_inserts:
  assumes "valid ht"
  shows "\<exists>ht'. run ht (map (\<lambda>(nm, ph). Insert True nm ph) nps) = Inr ht' \<and> valid ht' \<and>
           length (entries ht') = length (entries ht) + length nps"
  using assms
proof (induction nps arbitrary: ht)
  case Nil
  then show ?case by simp
next
  case (Cons np nps)
  obtain nm ph where np: "np = (nm, ph)" by (cases np)
  from valid_hash [OF Cons.prems, of nm] obtain i where i: "hashFunction nm (size_ht ht) = Inr i"
    by blast
  from insertContact_valid [OF Cons.prems i, of ph] obtain ht1 msg
    where ins: "insertContact True ht nm ph = Inr (ht1, msg)" by blast
  from valid_insert [OF Cons.prems ins] have v1: "valid ht1" .
  from Cons.IH [OF v1] entries_insert [OF Cons.prems ins] ins np show ?case
    by auto
qed

subsection \<open>Names longer than the buffer\<close>

lemma c_str_take: "c_str (take n (c_str s)) = take n (c_str s)"
proof -
  have "\<forall>x \<in> set (take n (c_str s)). x \<noteq> NUL"
    using NUL_notin_c_str [of s] by (auto dest: in_set_takeD)
  then have "takeWhile (\<lambda>c. c \<noteq> NUL) (take n (c_str s)) = take n (c_str s)"
    by (simp only: takeWhile_eq_all_conv)
  then show ?thesis
    by (simp only: c_str_def)
qed

lemma valid_names:
  assumes "valid ht" and "k < length (table ht)" and "e \<in> set (table ht ! k)"
  shows "strlen (name e) < MAX_NAME_LEN"
  using valid_chain [OF assms(1,2)] assms(3)
  by (auto simp: list_all_iff valid_node_def)

lemma long_name_no_match:
  "strlen (name e) < MAX_NAME_LEN \<Longrightarrow> MAX_NAME_LEN \<le> strlen nm \<Longrightarrow> \<not> matches nm e"
  by (auto simp: matches_def strlen_def)

lemma search_chain_None: "search_chain chain nm = None \<longleftrightarrow> (\<forall>e \<in> set chain. \<not> matches nm e)"
  by (auto simp: search_chain_find find_None_iff)

lemma long_name_chain:
  assumes "valid ht" and "MAX_NAME_LEN \<le> strlen nm" and "k < length (table ht)"
  shows "\<forall>e \<in> set (table ht ! k). \<not> matches nm e"
  using valid_names [OF assms(1,3)] long_name_no_match [OF _ assms(2)] by blast

lemma search_long_name:
  assumes "valid ht" and "MAX_NAME_LEN \<le> strlen nm"
  shows "searchContact ht nm = Inr None"
proof -
  from valid_hash [OF assms(1), of nm] obtain i
    where i: "hashFunction nm (size_ht ht) = Inr i" "unat i < length (table ht)" by blast
  from long_name_chain [OF assms i(2)] have "search_chain (table ht ! unat i) nm = None"
    by (simp only: search_chain_None)
  then show ?thesis
    by (simp only: searchContact_valid [OF assms(1) i(1)])
qed

lemma delete_long_name:
  assumes "valid ht" and "MAX_NAME_LEN \<le> strlen nm"
  shows "deleteContact ht nm = Inr (ht, Printf (not_found_message (c_str nm)))"
proof -
  from valid_hash [OF assms(1), of nm] obtain i
    where i: "hashFunction nm (size_ht ht) = Inr i" "unat i < length (table ht)" by blast
  from long_name_chain [OF assms i(2)] show ?thesis
    by (rule delete_no_match [OF assms(1) i(1)])
qed

lemma search_prefix:
  assumes "valid ht" and "insertContact True ht nm ph = Inr (ht', msg)"
    and "q = take (MAX_NAME_LEN - 1) (c_str nm)"
  shows "hashFunction q (size_ht ht) = hashFunction nm (size_ht ht) \<longrightarrow>
           searchContact ht' q = Inr (Some (new_node nm ph))"
    and "hashFunction q (size_ht ht) \<noteq> hashFunction nm (size_ht ht) \<longrightarrow>
           searchContact ht' q = searchContact ht q"
proof -
  from valid_hash [OF assms(1), of nm] obtain i
    where i: "hashFunction nm (size_ht ht) = Inr i" "unat i < length (table ht)" by blast
  from valid_hash [OF assms(1), of q] obtain j
    where j: "hashFunction q (size_ht ht) = Inr j" "unat j < length (table ht)" by blast
  from insertContact_valid [OF assms(1) i(1), of ph] assms(2)
  have ht': "ht' = ht\<lparr>table := (table ht)[unat i := new_node nm ph # table ht ! unat i]\<rparr>"
    by simp
  from valid_insert [OF assms(1,2)] have v': "valid ht'" .
  have j': "hashFunction q (size_ht ht') = Inr j"
    using j(1) by (simp add: ht')
  have s': "searchContact ht' q = Inr (search_chain (table ht' ! unat j) q)"
    by (rule searchContact_valid [OF v' j'])
  have s: "searchContact ht q = Inr (search_chain (table ht ! unat j) q)"
    by (rule searchContact_valid [OF assms(1) j(1)])
  have m: "matches q (new_node nm ph)"
    by (simp add: matches_def name_new_node assms(3) c_str_take)
  show "hashFunction q (size_ht ht) = hashFunction nm (size_ht ht) \<longrightarrow>
           searchContact ht' q = Inr (Some (new_node nm ph))"
  proof
    assume "hashFunction q (size_ht ht) = hashFunction nm (size_ht ht)"
    with i j have "j = i" by simp
    with i(2) have "table ht' ! unat j = new_node nm ph # table ht ! unat i"
      by (simp add: ht')
    with m show "searchContact ht' q = Inr (Some (new_node nm ph))"
      by (simp add: s' search_chain_find)
  qed
  show "hashFunction q (size_ht ht) \<noteq> hashFunction nm (size_ht ht) \<longrightarrow>
           searchContact ht' q = searchContact ht q"
  proof
    assume "hashFunction q (size_ht ht) \<noteq> hashFunction nm (size_ht ht)"
    with i j have "j \<noteq> i" by auto
    then have "unat j \<noteq> unat i" by (simp add: word_unat_eq_iff)
    then have "table ht' ! unat j = table ht ! unat j"
      by (simp add: ht')
    then show "searchContact ht' q = searchContact ht q"
      by (simp only: s s')
  qed
qed

subsection \<open>Matching entries lie in the bucket of the query\<close>

lemma concat_single:
  assumes "k < length xss" and "\<forall>j < length xss. j \<noteq> k \<longrightarrow> xss ! j = []"
  shows "concat xss = xss ! k"
proof -
  have "\<forall>x \<in> set (take k xss). x = []"
  proof
    fix x assume "x \<in> set (take k xss)"
    then obtain j where "j < length (take k xss)" "x = take k xss ! j"
      by (auto simp: in_set_conv_nth)
    with assms show "x = []" by simp
  qed
  then have before: "concat (take k xss) = []"
    by (simp only: concat_eq_Nil_conv)
  have "\<forall>x \<in> set (drop (Suc k) xss). x = []"
  proof
    fix x assume "x \<in> set (drop (Suc k) xss)"
    then obtain j where "j < length (drop (Suc k) xss)" "x = drop (Suc k) xss ! j"
      by (auto simp: in_set_conv_nth)
    with assms show "x = []" by simp
  qed
  then have after: "concat (drop (Suc k) xss) = []"
    by (simp only: concat_eq_Nil_conv)
  have "xss = take k xss @ xss ! k # drop (Suc k) xss"
    using assms(1) by (rule id_take_nth_drop)
  then have "concat xss = concat (take k xss) @ xss ! k @ concat (drop (Suc k) xss)"
    by (metis concat.simps(2) concat_append)
  then show ?thesis
    by (simp only: before after append_Nil append_Nil2)
qed

lemma matches_in_bucket:
  assumes "valid ht" and "bucket_inv ht" and "hashFunction nm (size_ht ht) = Inr i"
  shows "filter (matches nm) (entries ht) = filter (matches nm) (table ht ! unat i)"
proof -
  from valid_hash [OF assms(1), of nm] assms(3) have i: "unat i < length (table ht)"
    by simp
  have other: "filter (matches nm) (table ht ! j) = []" if j: "j < length (table ht)" "j \<noteq> unat i" for j
  proof -
    have "\<not> matches nm e" if e: "e \<in> set (table ht ! j)" for e
    proof
      assume "matches nm e"
      then have "hashFunction (c_str (name e)) (size_ht ht) = hashFunction (c_str nm) (size_ht ht)"
        by (simp add: matches_def)
      then have "hashFunction (name e) (size_ht ht) = Inr i"
        by (simp only: hashFunction_c_str assms(3))
      moreover from assms(2) j(1) e have "hashFunction (name e) (size_ht ht) = Inr (of_nat j)"
        by (simp add: bucket_inv_def)
      ultimately have "unat (of_nat j :: 32 word) = unat i"
        by simp
      moreover from table_small(1) [OF assms(1)] j(1) have "j < 2 ^ 31"
        by simp
      ultimately show False
        using j(2) by (simp add: unat_of_nat_small)
    qed
    then show ?thesis
      by (simp add: filter_empty_conv)
  qed
  have "filter (matches nm) (entries ht) = concat (map (filter (matches nm)) (table ht))"
    by (simp add: entries_def filter_concat)
  also have "\<dots> = map (filter (matches nm)) (table ht) ! unat i"
    using i other by (intro concat_single) simp_all
  finally show ?thesis
    using i by simp
qed

section \<open>The claims\<close>

subsection \<open>Insert, then search\<close>

text \<open>
  Claim C1, as stated: for every name and phone, after \<open>insertContact\<close> on any table,
  \<open>searchContact\<close> with the same name returns an entry whose phone equals the phone that
  was inserted. It fails for a name of 50 bytes: the node holds its first 49 bytes, which
  \<open>strcmp\<close> finds different from the query, and the search returns \<open>NULL\<close>. It fails also
  for a phone of 15 bytes: the entry found holds its first 14 bytes only.
\<close>

theorem insert_then_search_counterexample:
  "search_after phonebook [Insert True (replicate 50 CHR ''a'') ''1''] (replicate 50 CHR ''a'')
     = Inr None \<and>
   search_after phonebook [Insert True ''Bob'' ''123456789012345''] ''Bob''
     = Inr (Some (new_node ''Bob'' ''123456789012345'')) \<and>
   c_str (phone (new_node ''Bob'' ''123456789012345'')) = ''12345678901234''"
  by code_simp

text \<open>
  Claim C1, amended: for every name of at most 49 bytes and every phone, after
  \<open>insertContact\<close> on any well-formed table (its \<open>malloc\<close> succeeding), \<open>searchContact\<close>
  with the same name returns an entry with that name whose phone is the first 14 bytes of
  the phone inserted; it equals the phone inserted when that has at most 14 bytes.
\<close>

theorem insert_then_search:
  "valid ht \<Longrightarrow> strlen nm < MAX_NAME_LEN \<Longrightarrow>
   \<exists>ht' msg e. insertContact True ht nm ph = Inr (ht', msg) \<and>
      searchContact ht' nm = Inr (Some e) \<and> c_str (name e) = c_str nm \<and>
      c_str (phone e) = take (MAX_PHONE_LEN - 1) (c_str ph) \<and>
      (strlen ph < MAX_PHONE_LEN \<longrightarrow> c_str (phone e) = c_str ph)"
proof -
  assume v: "valid ht" and len: "strlen nm < MAX_NAME_LEN"
  from valid_hash [OF v, of nm] obtain i where i: "hashFunction nm (size_ht ht) = Inr i"
    by blast
  from insertContact_valid [OF v i, of ph] obtain ht' msg
    where ins: "insertContact True ht nm ph = Inr (ht', msg)"
    by blast
  from insert_search [OF v len ins]
  have "searchContact ht' nm = Inr (Some (new_node nm ph))" .
  with ins show ?thesis
    using name_new_node_fits [OF len, of ph] phone_new_node [of nm ph]
      phone_new_node_fits [of ph nm]
    by blast
qed

theorem insert_then_search_witness:
  "valid phonebook \<and> strlen ''Alice'' < MAX_NAME_LEN \<and> strlen ''123'' < MAX_PHONE_LEN \<and>
   (\<exists>ht' msg e. insertContact True phonebook ''Alice'' ''123'' = Inr (ht', msg) \<and>
      searchContact ht' ''Alice'' = Inr (Some e) \<and> c_str (phone e) = ''123'')"
proof -
  have len: "strlen ''Alice'' < MAX_NAME_LEN"
    by (simp add: strlen_def c_str_def MAX_NAME_LEN_def)
  have plen: "strlen ''123'' < MAX_PHONE_LEN"
    by (simp add: strlen_def c_str_def MAX_PHONE_LEN_def)
  have "c_str ''123'' = ''123''"
    by (simp add: c_str_def)
  with insert_then_search [OF valid_phonebook len, of "''123''"] plen
  have "\<exists>ht' msg e. insertContact True phonebook ''Alice'' ''123'' = Inr (ht', msg) \<and>
      searchContact ht' ''Alice'' = Inr (Some e) \<and> c_str (phone e) = ''123''"
    by auto
  with valid_phonebook len plen show ?thesis
    by blast
qed

subsection \<open>Duplicate names\<close>

text \<open>
  Claim C2, as stated: for every table, inserting the same name twice with different phones
  and then searching returns the phone inserted last; after one delete of that name a
  second search returns the older phone. It fails for a name of 50 bytes, which no search
  finds, and for two phones of 15 bytes that differ in their last byte: the search
  returns their common first 14 bytes, which is neither phone.
\<close>

theorem duplicates_counterexample:
  "search_after phonebook
     [Insert True (replicate 50 CHR ''a'') ''111'', Insert True (replicate 50 CHR ''a'') ''222'']
     (replicate 50 CHR ''a'') = Inr None \<and>
   search_after phonebook
     [Insert True ''Bob'' ''123456789012345'', Insert True ''Bob'' ''123456789012346''] ''Bob''
     = Inr (Some (new_node ''Bob'' ''123456789012346'')) \<and>
   c_str (phone (new_node ''Bob'' ''123456789012346'')) = ''12345678901234''"
  by code_simp

text \<open>
  Claim C2, amended: for every well-formed table and every name of at most 49 bytes,
  inserting the name twice puts both entries at the head of the name's chain, the
  second insert first; a search returns the entry of the second insert; one delete of the
  name removes that entry and leaves the table as it was after the first insert, where a
  search returns the entry of the first insert. Each entry holds the first 14 bytes of
  its phone.
\<close>

theorem duplicates_newest_first:
  "valid ht \<Longrightarrow> strlen nm < MAX_NAME_LEN \<Longrightarrow>
   \<exists>ht1 m1 ht2 m2 i.
      insertContact True ht nm p1 = Inr (ht1, m1) \<and>
      insertContact True ht1 nm p2 = Inr (ht2, m2) \<and>
      hashFunction nm (size_ht ht) = Inr i \<and>
      table ht2 ! unat i = new_node nm p2 # new_node nm p1 # table ht ! unat i \<and>
      searchContact ht2 nm = Inr (Some (new_node nm p2)) \<and>
      deleteContact ht2 nm = Inr (ht1, Printf (deleted_message (c_str nm))) \<and>
      searchContact ht1 nm = Inr (Some (new_node nm p1)) \<and>
      c_str (phone (new_node nm p1)) = take (MAX_PHONE_LEN - 1) (c_str p1) \<and>
      c_str (phone (new_node nm p2)) = take (MAX_PHONE_LEN - 1) (c_str p2)"
proof -
  assume v: "valid ht" and len: "strlen nm < MAX_NAME_LEN"
  from valid_hash [OF v, of nm] obtain i
    where i: "hashFunction nm (size_ht ht) = Inr i" "unat i < length (table ht)"
    by blast
  define ht1 where "ht1 = ht\<lparr>table := (table ht)[unat i := new_node nm p1 # table ht ! unat i]\<rparr>"
  define ht2 where "ht2 = ht1\<lparr>table := (table ht1)[unat i := new_node nm p2 # table ht1 ! unat i]\<rparr>"
  have ins1: "insertContact True ht nm p1 = Inr (ht1, Printf (added_message (c_str nm) (c_str p1)))"
    unfolding ht1_def by (rule insertContact_valid [OF v i(1)])
  from valid_insert [OF v ins1] have v1: "valid ht1" .
  have i1: "hashFunction nm (size_ht ht1) = Inr i"
    using i(1) by (simp add: ht1_def)
  have ins2: "insertContact True ht1 nm p2 = Inr (ht2, Printf (added_message (c_str nm) (c_str p2)))"
    unfolding ht2_def by (rule insertContact_valid [OF v1 i1])
  have chain: "table ht2 ! unat i = new_node nm p2 # new_node nm p1 # table ht ! unat i"
    using i(2) by (simp add: ht2_def ht1_def)
  note insert_search [OF v1 len ins2] insert_delete [OF v1 len ins2] insert_search [OF v len ins1]
  with ins1 ins2 i(1) chain show ?thesis
    using phone_new_node [of nm p1] phone_new_node [of nm p2]
    by blast
qed

theorem duplicates_newest_first_witness:
  "valid phonebook \<and> strlen ''Alice'' < MAX_NAME_LEN \<and>
   search_after phonebook [Insert True ''Alice'' ''111'', Insert True ''Alice'' ''222''] ''Alice''
     = Inr (Some (new_node ''Alice'' ''222'')) \<and>
   search_after phonebook
     [Insert True ''Alice'' ''111'', Insert True ''Alice'' ''222'', Delete ''Alice''] ''Alice''
     = Inr (Some (new_node ''Alice'' ''111'')) \<and>
   c_str (phone (new_node ''Alice'' ''111'')) = ''111'' \<and>
   c_str (phone (new_node ''Alice'' ''222'')) = ''222''"
proof -
  have len: "strlen ''Alice'' < MAX_NAME_LEN"
    by (simp add: strlen_def c_str_def MAX_NAME_LEN_def)
  have p: "take (MAX_PHONE_LEN - 1) (c_str ''111'') = ''111''"
    "take (MAX_PHONE_LEN - 1) (c_str ''222'') = ''222''"
    by (simp_all add: c_str_def MAX_PHONE_LEN_def)
  from duplicates_newest_first [OF valid_phonebook len, of "''111''" "''222''"]
  obtain ht1 m1 ht2 m2 where
    "insertContact True phonebook ''Alice'' ''111'' = Inr (ht1, m1)"
    "insertContact True ht1 ''Alice'' ''222'' = Inr (ht2, m2)"
    "searchContact ht2 ''Alice'' = Inr (Some (new_node ''Alice'' ''222''))"
    "deleteContact ht2 ''Alice'' = Inr (ht1, Printf (deleted_message (c_str ''Alice'')))"
    "searchContact ht1 ''Alice'' = Inr (Some (new_node ''Alice'' ''111''))"
    "c_str (phone (new_node ''Alice'' ''111'')) = take (MAX_PHONE_LEN - 1) (c_str ''111'')"
    "c_str (phone (new_node ''Alice'' ''222'')) = take (MAX_PHONE_LEN - 1) (c_str ''222'')"
    by blast
  with valid_phonebook len p show ?thesis
    by (simp add: search_after_def)
qed

subsection \<open>The bucket invariant\<close>

text \<open>
  Claim C3, as stated: in every table reached from a fresh one by inserts and deletes,
  every entry of bucket \<open>i\<close> hashes to \<open>i\<close>, and insert and delete keep this. It fails
  after the insert of a name of 50 bytes into the fresh table of \<open>main\<close>: the bucket, 83, is
  computed from the 50 bytes, the entry holds the first 49, which hash to 46.
\<close>

theorem bucket_invariant_counterexample:
  "createHashTable True True TABLE_SIZE = Inr phonebook \<and>
   table (projr (run phonebook [Insert True (replicate 50 CHR ''a'') ''1''])) ! 83
     = [new_node (replicate 50 CHR ''a'') ''1''] \<and>
   hashFunction (name (new_node (replicate 50 CHR ''a'') ''1''))
     (size_ht (projr (run phonebook [Insert True (replicate 50 CHR ''a'') ''1'']))) = Inr 46 \<and>
   \<not> bucket_inv (projr (run phonebook [Insert True (replicate 50 CHR ''a'') ''1'']))"
proof -
  define ht where "ht = projr (run phonebook [Insert True (replicate 50 CHR ''a'') ''1''])"
  have c: "createHashTable True True TABLE_SIZE = Inr phonebook"
    by code_simp
  have t: "table ht ! 83 = [new_node (replicate 50 CHR ''a'') ''1'']"
    unfolding ht_def by code_simp
  have h: "hashFunction (name (new_node (replicate 50 CHR ''a'') ''1'')) (size_ht ht) = Inr 46"
    unfolding ht_def by code_simp
  have l: "length (table ht) = 100"
    unfolding ht_def by code_simp
  have "\<not> bucket_inv ht"
  proof
    assume "bucket_inv ht"
    then have "\<forall>i < length (table ht). \<forall>e \<in> set (table ht ! i).
        hashFunction (name e) (size_ht ht) = Inr (of_nat i)"
      by (simp only: bucket_inv_def)
    moreover have "83 < length (table ht)"
      using l by simp
    ultimately have "\<forall>e \<in> set (table ht ! 83). hashFunction (name e) (size_ht ht) = Inr (of_nat 83)"
      by blast
    with t h show False by simp
  qed
  with c t h show ?thesis
    unfolding ht_def by (intro conjI)
qed

text \<open>
  Claim C3, amended: in every table reached from a fresh one by deletes and by inserts of
  names of at most 49 bytes, the name stored in every entry of bucket \<open>i\<close> hashes to \<open>i\<close>;
  \<open>deleteContact\<close>, and \<open>insertContact\<close> with such a name, keep this invariant.
\<close>

theorem bucket_invariant:
  "(createHashTable m c n = Inr ht0 \<and> list_all fits cs \<and> run ht0 cs = Inr ht \<longrightarrow> bucket_inv ht) \<and>
   (bucket_inv ht1 \<and> strlen nm < MAX_NAME_LEN \<and> insertContact mem ht1 nm ph = Inr (ht2, msg)
      \<longrightarrow> bucket_inv ht2) \<and>
   (bucket_inv ht1 \<and> deleteContact ht1 nm' = Inr (ht3, msg') \<longrightarrow> bucket_inv ht3)"
  using bucket_inv_run [OF bucket_inv_create, of m c n ht0 cs ht]
    bucket_inv_insert [of ht1 nm mem ph ht2 msg] bucket_inv_delete [of ht1 nm' ht3 msg']
  by blast

theorem bucket_invariant_witness:
  "createHashTable True True TABLE_SIZE = Inr phonebook \<and>
   list_all fits [Insert True ''Alice'' ''123'', Insert True ''Bob'' ''456'', Delete ''Alice''] \<and>
   run phonebook [Insert True ''Alice'' ''123'', Insert True ''Bob'' ''456'', Delete ''Alice'']
     = Inr (phonebook\<lparr>table := (table phonebook)[32 := [new_node ''Bob'' ''456'']]\<rparr>) \<and>
   bucket_inv (phonebook\<lparr>table := (table phonebook)[32 := [new_node ''Bob'' ''456'']]\<rparr>) \<and>
   bucket_inv phonebook \<and> strlen ''Bob'' < MAX_NAME_LEN \<and>
   insertContact True phonebook ''Bob'' ''456''
     = Inr (phonebook\<lparr>table := (table phonebook)[32 := [new_node ''Bob'' ''456'']]\<rparr>,
            Printf (added_message ''Bob'' ''456'')) \<and>
   deleteContact (phonebook\<lparr>table := (table phonebook)[32 := [new_node ''Bob'' ''456'']]\<rparr>) ''Bob''
     = Inr (phonebook, Printf (deleted_message ''Bob''))"
proof -
  have c: "createHashTable True True TABLE_SIZE = Inr phonebook"
    by code_simp
  have f: "list_all fits [Insert True ''Alice'' ''123'', Insert True ''Bob'' ''456'', Delete ''Alice'']"
    by code_simp
  have r: "run phonebook [Insert True ''Alice'' ''123'', Insert True ''Bob'' ''456'', Delete ''Alice'']
     = Inr (phonebook\<lparr>table := (table phonebook)[32 := [new_node ''Bob'' ''456'']]\<rparr>)"
    by code_simp
  have b: "strlen ''Bob'' < MAX_NAME_LEN"
    by code_simp
  have i: "insertContact True phonebook ''Bob'' ''456''
     = Inr (phonebook\<lparr>table := (table phonebook)[32 := [new_node ''Bob'' ''456'']]\<rparr>,
            Printf (added_message ''Bob'' ''456''))"
    by code_simp
  have d: "deleteContact (phonebook\<lparr>table := (table phonebook)[32 := [new_node ''Bob'' ''456'']]\<rparr>) ''Bob''
     = Inr (phonebook, Printf (deleted_message ''Bob''))"
    by code_simp
  note inv = bucket_invariant [of True True TABLE_SIZE phonebook
      "[Insert True ''Alice'' ''123'', Insert True ''Bob'' ''456'', Delete ''Alice'']"
      "phonebook\<lparr>table := (table phonebook)[32 := [new_node ''Bob'' ''456'']]\<rparr>"
      "phonebook\<lparr>table := (table phonebook)[32 := [new_node ''Bob'' ''456'']]\<rparr>"
      "''Bob''" True "''456''" phonebook "Printf (deleted_message ''Bob'')" "''Bob''" phonebook
      "Printf (deleted_message ''Bob'')"]
  from inv c f r have b1: "bucket_inv (phonebook\<lparr>table := (table phonebook)[32 := [new_node ''Bob'' ''456'']]\<rparr>)"
    by blast
  with inv d have b0: "bucket_inv phonebook"
    by blast
  from c f r b1 b0 b i d show ?thesis
    by (intro conjI)
qed

subsection \<open>Deleting a name that is not there\<close>

text \<open>
  Claim C4. For every well-formed table and every name with no exactly-matching entry in
  the chain of its bucket (the empty table included), \<open>deleteContact\<close> reports not-found
  and returns the table it was given, unchanged.
\<close>

theorem delete_not_found:
  "valid ht \<Longrightarrow> hashFunction nm (size_ht ht) = Inr i \<Longrightarrow>
   \<forall>e \<in> set (table ht ! unat i). c_str (name e) \<noteq> c_str nm \<Longrightarrow>
   deleteContact ht nm = Inr (ht, Printf (not_found_message (c_str nm)))"
  by (rule delete_no_match) (simp_all add: matches_def)

theorem delete_not_found_witness:
  "valid phonebook \<and> hashFunction ''Alice'' (size_ht phonebook) = Inr 7 \<and>
   table phonebook ! unat (7 :: 32 word) = [] \<and>
   deleteContact phonebook ''Alice'' = Inr (phonebook, Printf (not_found_message ''Alice''))"
proof -
  have h: "hashFunction ''Alice'' (size_ht phonebook) = Inr 7"
    by (simp add: phonebook_eq hashFunction_def char_to_int_def)
  have t: "table phonebook ! unat (7 :: 32 word) = []"
    by (simp add: phonebook_eq)
  then have "\<forall>e \<in> set (table phonebook ! unat (7 :: 32 word)). c_str (name e) \<noteq> c_str ''Alice''"
    by simp
  from delete_not_found [OF valid_phonebook h this] have
    "deleteContact phonebook ''Alice'' = Inr (phonebook, Printf (not_found_message ''Alice''))"
    by (simp add: c_str_def)
  with valid_phonebook h t show ?thesis
    by blast
qed

subsection \<open>One delete removes one entry\<close>

text \<open>
  Claim C5, as stated: for every table containing \<open>k \<ge> 1\<close> entries whose name exactly
  matches the query, one delete removes the first matching entry and the number of entries
  drops by one, so that \<open>k\<close> deletes remove all \<open>k\<close>. It fails where a matching entry lies
  outside the bucket of the query. After the insert of 50 bytes \<open>a\<close> into the fresh table
  of \<open>main\<close> the table contains one entry whose name is the 49 bytes \<open>a\<close>, in bucket 83; a
  delete of the 49 bytes \<open>a\<close> looks in bucket 46, which is empty, reports not-found and
  leaves the table as it is, however often it is called.
\<close>

theorem delete_store_match_counterexample:
  "createHashTable True True TABLE_SIZE = Inr phonebook \<and>
   run phonebook [Insert True (replicate 50 CHR ''a'') ''1'']
     = Inr (phonebook\<lparr>table := (table phonebook)[83 := [new_node (replicate 50 CHR ''a'') ''1'']]\<rparr>) \<and>
   valid (phonebook\<lparr>table := (table phonebook)[83 := [new_node (replicate 50 CHR ''a'') ''1'']]\<rparr>) \<and>
   filter (matches (replicate 49 CHR ''a''))
     (entries (phonebook\<lparr>table := (table phonebook)[83 := [new_node (replicate 50 CHR ''a'') ''1'']]\<rparr>))
     = [new_node (replicate 50 CHR ''a'') ''1''] \<and>
   hashFunction (replicate 49 CHR ''a'')
     (size_ht (phonebook\<lparr>table := (table phonebook)[83 := [new_node (replicate 50 CHR ''a'') ''1'']]\<rparr>))
     = Inr 46 \<and>
   table (phonebook\<lparr>table := (table phonebook)[83 := [new_node (replicate 50 CHR ''a'') ''1'']]\<rparr>) ! 46
     = [] \<and>
   deleteContact
     (phonebook\<lparr>table := (table phonebook)[83 := [new_node (replicate 50 CHR ''a'') ''1'']]\<rparr>)
     (replicate 49 CHR ''a'')
     = Inr (phonebook\<lparr>table := (table phonebook)[83 := [new_node (replicate 50 CHR ''a'') ''1'']]\<rparr>,
            Printf (not_found_message (replicate 49 CHR ''a''))) \<and>
   run (phonebook\<lparr>table := (table phonebook)[83 := [new_node (replicate 50 CHR ''a'') ''1'']]\<rparr>)
     (replicate 3 (Delete (replicate 49 CHR ''a'')))
     = Inr (phonebook\<lparr>table := (table phonebook)[83 := [new_node (replicate 50 CHR ''a'') ''1'']]\<rparr>)"
proof -
  define ht where
    "ht = phonebook\<lparr>table := (table phonebook)[83 := [new_node (replicate 50 CHR ''a'') ''1'']]\<rparr>"
  have c: "createHashTable True True TABLE_SIZE = Inr phonebook"
    by code_simp
  have r: "run phonebook [Insert True (replicate 50 CHR ''a'') ''1''] = Inr ht"
    unfolding ht_def by code_simp
  from run_total [OF valid_phonebook, of "[Insert True (replicate 50 CHR ''a'') ''1'']"] r
  have v: "valid ht"
    by simp
  have f: "filter (matches (replicate 49 CHR ''a'')) (entries ht)
             = [new_node (replicate 50 CHR ''a'') ''1'']"
    unfolding ht_def by code_simp
  have h: "hashFunction (replicate 49 CHR ''a'') (size_ht ht) = Inr 46"
    unfolding ht_def by code_simp
  have t: "table ht ! 46 = []"
    unfolding ht_def by code_simp
  have d: "deleteContact ht (replicate 49 CHR ''a'')
             = Inr (ht, Printf (not_found_message (replicate 49 CHR ''a'')))"
    unfolding ht_def by code_simp
  have d3: "run ht (replicate 3 (Delete (replicate 49 CHR ''a''))) = Inr ht"
    unfolding ht_def by code_simp
  from c r v f h t d d3 show ?thesis
    unfolding ht_def by (intro conjI)
qed

text \<open>
  Claim C5, amended: take a well-formed table and a query whose bucket chain holds
  \<open>k \<ge> 1\<close> entries with exactly the query's name. One \<open>deleteContact\<close> reports success and
  unlinks the first matching entry of that chain and nothing else: the entries before it
  do not match, the rest of the chain and the other buckets stay, the number of entries of
  the table drops by one, and \<open>k - 1\<close> matching entries remain. After \<open>j \<le> k\<close> calls
  \<open>k - j\<close> matching entries remain, so that it takes \<open>k\<close> calls to remove all \<open>k\<close>. In a
  table with the bucket invariant the matching entries of that chain are all the matching
  entries of the table.
\<close>

theorem delete_removes_first_match:
  "valid ht \<Longrightarrow> hashFunction nm (size_ht ht) = Inr i \<Longrightarrow>
   k = length (filter (matches nm) (table ht ! unat i)) \<Longrightarrow> 1 \<le> k \<Longrightarrow>
   (\<exists>ht' pre e post.
      deleteContact ht nm = Inr (ht', Printf (deleted_message (c_str nm))) \<and>
      table ht ! unat i = pre @ e # post \<and> (\<forall>x \<in> set pre. \<not> matches nm x) \<and> matches nm e \<and>
      ht' = ht\<lparr>table := (table ht)[unat i := pre @ post]\<rparr> \<and>
      length (entries ht') + 1 = length (entries ht) \<and>
      length (filter (matches nm) (table ht' ! unat i)) = k - 1) \<and>
   (\<forall>j \<le> k. \<exists>htj.
      run ht (replicate j (Delete nm)) = Inr htj \<and>
      length (filter (matches nm) (table htj ! unat i)) = k - j \<and>
      length (entries htj) + j = length (entries ht)) \<and>
   (bucket_inv ht \<longrightarrow> length (filter (matches nm) (entries ht)) = k)"
proof -
  assume v: "valid ht" and h: "hashFunction nm (size_ht ht) = Inr i"
    and k: "k = length (filter (matches nm) (table ht ! unat i))" and k1: "1 \<le> k"
  from valid_hash [OF v, of nm] h have i: "unat i < length (table ht)"
    by simp
  from k k1 have ne: "filter (matches nm) (table ht ! unat i) \<noteq> []"
    by auto
  from delete_once [OF v h ne] obtain pre e post where
    d: "table ht ! unat i = pre @ e # post" "\<forall>x \<in> set pre. \<not> matches nm x" "matches nm e"
      "deleteContact ht nm =
         Inr (ht\<lparr>table := (table ht)[unat i := pre @ post]\<rparr>, Printf (deleted_message (c_str nm)))"
      "length (entries (ht\<lparr>table := (table ht)[unat i := pre @ post]\<rparr>)) + 1 = length (entries ht)"
      "filter (matches nm) (pre @ post) = tl (filter (matches nm) (table ht ! unat i))"
    by blast
  have "length (filter (matches nm) (table (ht\<lparr>table := (table ht)[unat i := pre @ post]\<rparr>) ! unat i))
          = k - 1"
  proof -
    have "table (ht\<lparr>table := (table ht)[unat i := pre @ post]\<rparr>) ! unat i = pre @ post"
      using i by simp
    then show ?thesis
      by (simp only: d(6) k length_tl)
  qed
  with d have one: "\<exists>ht' pre e post.
      deleteContact ht nm = Inr (ht', Printf (deleted_message (c_str nm))) \<and>
      table ht ! unat i = pre @ e # post \<and> (\<forall>x \<in> set pre. \<not> matches nm x) \<and> matches nm e \<and>
      ht' = ht\<lparr>table := (table ht)[unat i := pre @ post]\<rparr> \<and>
      length (entries ht') + 1 = length (entries ht) \<and>
      length (filter (matches nm) (table ht' ! unat i)) = k - 1"
    by blast
  have "\<exists>htj. run ht (replicate j (Delete nm)) = Inr htj \<and>
      length (filter (matches nm) (table htj ! unat i)) = k - j \<and>
      length (entries htj) + j = length (entries ht)" if "j \<le> k" for j
  proof -
    from that k have "j \<le> length (filter (matches nm) (table ht ! unat i))"
      by simp
    from delete_many [OF v h this] k show ?thesis
      by auto
  qed
  moreover have "length (filter (matches nm) (entries ht)) = k" if "bucket_inv ht"
    using matches_in_bucket [OF v that h] k by simp
  ultimately show ?thesis
    using one by blast
qed

theorem delete_removes_first_match_witness:
  "valid (projr (run phonebook
     [Insert True ''Alice'' ''111'', Insert True ''Alice'' ''222'', Insert True ''Eli'' ''333''])) \<and>
   hashFunction ''Alice'' (size_ht (projr (run phonebook
     [Insert True ''Alice'' ''111'', Insert True ''Alice'' ''222'', Insert True ''Eli'' ''333''])))
     = Inr 7 \<and>
   table (projr (run phonebook
     [Insert True ''Alice'' ''111'', Insert True ''Alice'' ''222'', Insert True ''Eli'' ''333'']))
     ! unat (7 :: 32 word)
     = [new_node ''Eli'' ''333'', new_node ''Alice'' ''222'', new_node ''Alice'' ''111''] \<and>
   length (filter (matches ''Alice'') (table (projr (run phonebook
     [Insert True ''Alice'' ''111'', Insert True ''Alice'' ''222'', Insert True ''Eli'' ''333'']))
     ! unat (7 :: 32 word))) = 2 \<and>
   bucket_inv (projr (run phonebook
     [Insert True ''Alice'' ''111'', Insert True ''Alice'' ''222'', Insert True ''Eli'' ''333''])) \<and>
   length (filter (matches ''Alice'') (entries (projr (run phonebook
     [Insert True ''Alice'' ''111'', Insert True ''Alice'' ''222'', Insert True ''Eli'' ''333''])))) = 2 \<and>
   (\<exists>ht'. deleteContact (projr (run phonebook
            [Insert True ''Alice'' ''111'', Insert True ''Alice'' ''222'', Insert True ''Eli'' ''333'']))
            ''Alice'' = Inr (ht', Printf (deleted_message ''Alice'')) \<and>
          table ht' ! unat (7 :: 32 word) = [new_node ''Eli'' ''333'', new_node ''Alice'' ''111''] \<and>
          length (entries ht') = 2 \<and>
          length (filter (matches ''Alice'') (table ht' ! unat (7 :: 32 word))) = 1) \<and>
   (\<exists>htj. run (projr (run phonebook
            [Insert True ''Alice'' ''111'', Insert True ''Alice'' ''222'', Insert True ''Eli'' ''333'']))
            (replicate 2 (Delete ''Alice'')) = Inr htj \<and>
          length (filter (matches ''Alice'') (table htj ! unat (7 :: 32 word))) = 0 \<and>
          length (entries htj) = 1)"
proof -
  let ?cs = "[Insert True ''Alice'' ''111'', Insert True ''Alice'' ''222'', Insert True ''Eli'' ''333'']"
  define ht where "ht = projr (run phonebook ?cs)"
  have v: "valid ht"
    unfolding ht_def by (rule valid_projr_run [OF valid_phonebook])
  have h: "hashFunction ''Alice'' (size_ht ht) = Inr 7"
    unfolding ht_def by code_simp
  have t: "table ht ! unat (7 :: 32 word)
             = [new_node ''Eli'' ''333'', new_node ''Alice'' ''222'', new_node ''Alice'' ''111'']"
    unfolding ht_def by code_simp
  have k: "2 = length (filter (matches ''Alice'') (table ht ! unat (7 :: 32 word)))"
    unfolding ht_def by code_simp
  have n: "length (entries ht) = 3"
    unfolding ht_def by code_simp
  have k1: "1 \<le> (2 :: nat)"
    by simp
  note del = delete_removes_first_match [OF v h k k1]
  have "createHashTable True True TABLE_SIZE = Inr phonebook"
    by code_simp
  moreover have "list_all fits ?cs"
    by code_simp
  moreover have "run phonebook ?cs = Inr ht"
    unfolding ht_def using run_total [OF valid_phonebook, of ?cs] by auto
  ultimately have b: "bucket_inv ht"
    by (intro bucket_inv_run [OF bucket_inv_create])
  with del have w: "length (filter (matches ''Alice'') (entries ht)) = 2"
    by blast
  from del obtain ht' pre e post where d:
    "deleteContact ht ''Alice'' = Inr (ht', Printf (deleted_message (c_str ''Alice'')))"
    "table ht ! unat (7 :: 32 word) = pre @ e # post"
    "\<forall>x \<in> set pre. \<not> matches ''Alice'' x" "matches ''Alice'' e"
    "ht' = ht\<lparr>table := (table ht)[unat (7 :: 32 word) := pre @ post]\<rparr>"
    "length (entries ht') + 1 = length (entries ht)"
    "length (filter (matches ''Alice'') (table ht' ! unat (7 :: 32 word))) = 2 - 1"
    by blast
  have "deleteContact ht ''Alice''
          = Inr (ht\<lparr>table := (table ht)[unat (7 :: 32 word)
                     := [new_node ''Eli'' ''333'', new_node ''Alice'' ''111'']]\<rparr>,
                 Printf (deleted_message ''Alice''))"
    unfolding ht_def by code_simp
  with d(1) have "ht' = ht\<lparr>table := (table ht)[unat (7 :: 32 word)
                     := [new_node ''Eli'' ''333'', new_node ''Alice'' ''111'']]\<rparr>"
    and m: "deleted_message (c_str ''Alice'') = deleted_message ''Alice''"
    by simp_all
  moreover have "unat (7 :: 32 word) < length (table ht)"
    using valid_hash [OF v, of "''Alice''"] h by simp
  ultimately have t': "table ht' ! unat (7 :: 32 word)
      = [new_node ''Eli'' ''333'', new_node ''Alice'' ''111'']"
    by simp
  from d(1,6,7) n m t' have one:
    "\<exists>ht'. deleteContact ht ''Alice'' = Inr (ht', Printf (deleted_message ''Alice'')) \<and>
          table ht' ! unat (7 :: 32 word) = [new_node ''Eli'' ''333'', new_node ''Alice'' ''111''] \<and>
          length (entries ht') = 2 \<and>
          length (filter (matches ''Alice'') (table ht' ! unat (7 :: 32 word))) = 1"
    by auto
  from del have all:
    "\<forall>j \<le> 2. \<exists>htj. run ht (replicate j (Delete ''Alice'')) = Inr htj \<and>
        length (filter (matches ''Alice'') (table htj ! unat (7 :: 32 word))) = 2 - j \<and>
        length (entries htj) + j = length (entries ht)"
    by (rule conjunct2 [THEN conjunct1])
  from all [rule_format, of 2] obtain ht2 where
    "run ht (replicate 2 (Delete ''Alice'')) = Inr ht2"
    "length (filter (matches ''Alice'') (table ht2 ! unat (7 :: 32 word))) = 2 - 2"
    "length (entries ht2) + 2 = length (entries ht)"
    by auto
  with n have two: "\<exists>htj. run ht (replicate 2 (Delete ''Alice'')) = Inr htj \<and>
          length (filter (matches ''Alice'') (table htj ! unat (7 :: 32 word))) = 0 \<and>
          length (entries htj) = 1"
    by simp
  from v h t k [symmetric] b w one two show ?thesis
    unfolding ht_def by (intro conjI)
qed

subsection \<open>Enumeration\<close>

text \<open>
  Claim C6. On every well-formed table \<open>displayContacts\<close> returns the table unchanged, and
  the contact lines it prints are the entries of the table, each once, bucket after bucket
  in index order and each chain from its head to its tail; a bucket line precedes the
  contacts of each non-empty bucket. After \<open>N\<close> inserts into a table it prints \<open>N\<close> more
  contact lines, so \<open>N\<close> lines after \<open>N\<close> inserts into an empty table.
\<close>

theorem display_visits_every_entry_once:
  "valid ht \<Longrightarrow>
   \<exists>lines. displayContacts ht = Inr (ht, lines) \<and>
     lines = Header # concat (map (bucket_lines ht) [0 ..< length (table ht)])
               @ (if entries ht = [] then [EmptyLine] else []) @ [Footer] \<and>
     contacts_of lines = map shown (concat (table ht)) \<and>
     length (contacts_of lines) = length (entries ht) \<and>
     buckets_of lines = map of_nat (filter (\<lambda>j. table ht ! j \<noteq> []) [0 ..< length (table ht)]) \<and>
     (\<forall>nps. \<exists>ht' lines'.
        run ht (map (\<lambda>(nm, ph). Insert True nm ph) nps) = Inr ht' \<and>
        displayContacts ht' = Inr (ht', lines') \<and>
        length (contacts_of lines') = length (entries ht) + length nps)"
proof -
  assume v: "valid ht"
  have c: "length (contacts_of (Header # concat (map (bucket_lines h) [0 ..< length (table h)])
               @ (if entries h = [] then [EmptyLine] else []) @ [Footer])) = length (entries h)" for h
    by (simp add: contacts_of_append contacts_of_buckets entries_def)
  have "\<exists>ht' lines'.
        run ht (map (\<lambda>(nm, ph). Insert True nm ph) nps) = Inr ht' \<and>
        displayContacts ht' = Inr (ht', lines') \<and>
        length (contacts_of lines') = length (entries ht) + length nps" for nps
  proof -
    from run_inserts [OF v, of nps] obtain ht'
      where r: "run ht (map (\<lambda>(nm, ph). Insert True nm ph) nps) = Inr ht'" "valid ht'"
        "length (entries ht') = length (entries ht) + length nps"
      by blast
    from displayContacts_lines [OF r(2)] c [of ht'] r(1,3) show ?thesis
      by simp
  qed
  with displayContacts_lines [OF v] c [of ht] show ?thesis
    by (simp add: contacts_of_append contacts_of_buckets buckets_of_append buckets_of_buckets
        entries_def)
qed

theorem display_visits_every_entry_once_witness:
  "valid (projr (run phonebook [Insert True ''Alice'' ''123'', Insert True ''Bob'' ''456''])) \<and>
   displayContacts (projr (run phonebook [Insert True ''Alice'' ''123'', Insert True ''Bob'' ''456'']))
     = Inr (projr (run phonebook [Insert True ''Alice'' ''123'', Insert True ''Bob'' ''456'']),
            [Header, BucketLine 7, ContactLine ''Alice'' ''123'',
             BucketLine 32, ContactLine ''Bob'' ''456'', Footer])"
proof -
  define ht where
    "ht = projr (run phonebook [Insert True ''Alice'' ''123'', Insert True ''Bob'' ''456''])"
  have v: "valid ht"
    unfolding ht_def by (rule valid_projr_run [OF valid_phonebook])
  have l: "Header # concat (map (bucket_lines ht) [0 ..< length (table ht)])
               @ (if entries ht = [] then [EmptyLine] else []) @ [Footer]
            = [Header, BucketLine 7, ContactLine ''Alice'' ''123'',
               BucketLine 32, ContactLine ''Bob'' ''456'', Footer]"
    unfolding ht_def by code_simp
  from display_visits_every_entry_once [OF v] l have
    "displayContacts ht = Inr (ht, [Header, BucketLine 7, ContactLine ''Alice'' ''123'',
             BucketLine 32, ContactLine ''Bob'' ''456'', Footer])"
    by auto
  with v show ?thesis
    unfolding ht_def by (intro conjI)
qed

subsection \<open>The range of the hash\<close>

text \<open>
  Claim C7. For every string \<open>s\<close> and every bucket count \<open>n > 0\<close>, \<open>hashFunction\<close>
  returns an index (it does not fault) that lies in \<open>[0, n)\<close>, and it is deterministic:
  two calls with equal arguments return equal results.
\<close>

theorem hashFunction_deterministic_in_range:
  "0 <s n \<Longrightarrow>
     (\<exists>h. hashFunction s n = Inr h \<and> 0 \<le> uint h \<and> uint h < sint n) \<and>
     (s' = s \<and> n' = n \<longrightarrow> hashFunction s' n' = hashFunction s n)"
proof -
  assume n: "0 <s n"
  from hashFunction_value [OF n, of s] obtain h where h: "hashFunction s n = Inr h"
    by blast
  from hashFunction_range(1) [OF n h] h show ?thesis
    by auto
qed

theorem hashFunction_deterministic_in_range_witness:
  "0 <s (100 :: 32 word) \<and>
   (\<exists>h. hashFunction ''Alice'' 100 = Inr h \<and> 0 \<le> uint h \<and> uint h < sint (100 :: 32 word))"
proof -
  have n: "0 <s (100 :: 32 word)"
    by (simp add: word_sless_alt)
  from hashFunction_deterministic_in_range [OF n, of "''Alice''" "''Alice''" 100] n
  show ?thesis
    by blast
qed

subsection \<open>The hash against the reference definition\<close>

text \<open>
  Claim C8, as stated: for every byte string and bucket count \<open>n > 0\<close> the implemented
  hash equals the reference definition, which reads each byte as an unsigned 8-bit value.
  It fails for a byte of \<open>0x80\<close> or more, which \<open>c = *name++\<close> sign-extends: the string
  of the single byte \<open>0x80\<close> hashes to bucket 45 of 100, the reference gives bucket 1
  (for an accumulator of 64 bits and of 32 bits alike).
\<close>

theorem hashFunction_reference_counterexample:
  "hashFunction [CHR 0x80] 100 = Inr 45 \<and>
   c_str [CHR 0x80] = [CHR 0x80] \<and>
   djb2_reference 64 [CHR 0x80] 100 = 1 \<and>
   djb2_reference 32 [CHR 0x80] 100 = 1"
  by (simp add: hashFunction_def char_to_int_def djb2_reference_def c_str_def)

text \<open>
  Claim C8, amended: for every byte string and bucket count \<open>n > 0\<close>, the hash starts at
  5381 and for each byte \<open>c\<close> of the name, in order and read as a signed 8-bit value, the
  accumulator becomes \<open>accumulator * 33 + c\<close> modulo \<open>2 ^ 64\<close>; the index is the final
  accumulator modulo \<open>n\<close>. For a name whose bytes are all below \<open>0x80\<close> this is the
  reference definition with unsigned bytes.
\<close>

theorem hashFunction_djb2_signed:
  "0 <s n \<Longrightarrow>
     \<exists>h. hashFunction s n = Inr h \<and>
         uint h = djb2_signed 64 (c_str s) (sint n) \<and>
         ((\<forall>c \<in> set (c_str s). (of_char c :: nat) < 128) \<longrightarrow>
            unat h = djb2_reference 64 (c_str s) (nat (sint n)))"
proof -
  assume n: "0 <s n"
  then have pos: "0 \<le> sint n" by (simp add: word_sless_alt)
  from hashFunction_signed [OF n, of s] obtain h
    where h: "hashFunction s n = Inr h" "uint h = djb2_signed 64 (c_str s) (sint n)"
    by blast
  have "unat h = djb2_reference 64 (c_str s) (nat (sint n))"
    if "\<forall>c \<in> set (c_str s). (of_char c :: nat) < 128"
  proof -
    have "int (unat h) = uint h" by simp
    also have "\<dots> = int (djb2_reference 64 (c_str s) (nat (sint n)))"
      using djb2_ascii [OF that pos, of 64] h(2) by (simp only:)
    finally show ?thesis by (simp only: of_nat_eq_iff)
  qed
  with h show ?thesis by blast
qed

theorem hashFunction_djb2_signed_witness:
  "0 <s (100 :: 32 word) \<and>
   list_all (\<lambda>c. (of_char c :: nat) < 128) (c_str ''Alice'') \<and>
   hashFunction ''Alice'' 100 = Inr 7 \<and>
   djb2_signed 64 (c_str ''Alice'') (sint (100 :: 32 word)) = 7 \<and>
   djb2_reference 64 (c_str ''Alice'') (nat (sint (100 :: 32 word))) = 7"
proof -
  have n: "0 <s (100 :: 32 word)"
    by (simp add: word_sless_alt)
  have a: "\<forall>c \<in> set (c_str ''Alice''). (of_char c :: nat) < 128"
    by (simp add: c_str_def)
  have h: "hashFunction ''Alice'' 100 = Inr 7"
    by (simp add: hashFunction_def char_to_int_def)
  from hashFunction_djb2_signed [OF n, of "''Alice''"] a h
  have "uint (7 :: 32 word) = djb2_signed 64 (c_str ''Alice'') (sint (100 :: 32 word))"
    and "unat (7 :: 32 word) = djb2_reference 64 (c_str ''Alice'') (nat (sint (100 :: 32 word)))"
    by auto
  then have "djb2_signed 64 (c_str ''Alice'') (sint (100 :: 32 word)) = 7"
    and "djb2_reference 64 (c_str ''Alice'') (nat (sint (100 :: 32 word))) = 7"
    by simp_all
  with n a h show ?thesis
    by (simp add: list_all_iff)
qed

subsection \<open>What insert stores and what it reports\<close>

text \<open>
  Claim C9, as stated: for every name and phone, insert succeeds when memory is available
  and reports success with the stored name and phone, the truncated strings placed in the
  new entry. It fails for a name of 50 bytes and a phone of 15: the entry holds their
  first 49 and 14 bytes, and the message of \<open>printf\<close> shows all 50 and all 15, since its
  arguments are the parameters \<open>name\<close> and \<open>phone\<close>.
\<close>

theorem insert_report_counterexample:
  "insertContact True phonebook (replicate 50 CHR ''a'') ''123456789012345''
     = Inr (phonebook\<lparr>table := (table phonebook)
                  [83 := [new_node (replicate 50 CHR ''a'') ''123456789012345'']]\<rparr>,
            Printf (added_message (replicate 50 CHR ''a'') ''123456789012345'')) \<and>
   c_str (name (new_node (replicate 50 CHR ''a'') ''123456789012345'')) = replicate 49 CHR ''a'' \<and>
   c_str (phone (new_node (replicate 50 CHR ''a'') ''123456789012345'')) = ''12345678901234'' \<and>
   added_message (replicate 50 CHR ''a'') ''123456789012345''
     \<noteq> added_message (replicate 49 CHR ''a'') ''12345678901234''"
  by code_simp

text \<open>
  Claim C9, amended: for every name and phone, on a well-formed table and with memory
  available, insert succeeds: it puts at the head of the name's chain a new entry that
  holds the first 49 bytes of the name and the first 14 bytes of the phone, and it
  reports success with the name and phone as they were passed, untruncated. The strings
  reported are the strings stored when the name has at most 49 bytes and the phone at
  most 14.
\<close>

theorem insert_reports_arguments:
  "valid ht \<Longrightarrow>
   \<exists>i. hashFunction nm (size_ht ht) = Inr i \<and>
     insertContact True ht nm ph =
       Inr (ht\<lparr>table := (table ht)[unat i := new_node nm ph # table ht ! unat i]\<rparr>,
            Printf (added_message (c_str nm) (c_str ph))) \<and>
     c_str (name (new_node nm ph)) = take (MAX_NAME_LEN - 1) (c_str nm) \<and>
     c_str (phone (new_node nm ph)) = take (MAX_PHONE_LEN - 1) (c_str ph) \<and>
     (strlen nm < MAX_NAME_LEN \<and> strlen ph < MAX_PHONE_LEN \<longrightarrow>
        added_message (c_str nm) (c_str ph)
          = added_message (c_str (name (new_node nm ph))) (c_str (phone (new_node nm ph))))"
proof -
  assume v: "valid ht"
  from valid_hash [OF v, of nm] obtain i where i: "hashFunction nm (size_ht ht) = Inr i"
    by blast
  from insertContact_valid [OF v i, of ph] i show ?thesis
    using name_new_node [of nm ph] phone_new_node [of nm ph]
      name_new_node_fits [of nm ph] phone_new_node_fits [of ph nm]
    by auto
qed

theorem insert_reports_arguments_witness:
  "valid phonebook \<and> strlen ''Alice'' < MAX_NAME_LEN \<and> strlen ''123'' < MAX_PHONE_LEN \<and>
   hashFunction ''Alice'' (size_ht phonebook) = Inr 7 \<and>
   insertContact True phonebook ''Alice'' ''123'' =
     Inr (phonebook\<lparr>table := (table phonebook)
            [unat (7 :: 32 word) := new_node ''Alice'' ''123'' # table phonebook ! unat (7 :: 32 word)]\<rparr>,
          Printf (added_message (c_str ''Alice'') (c_str ''123''))) \<and>
   added_message (c_str ''Alice'') (c_str ''123'')
     = added_message (c_str (name (new_node ''Alice'' ''123'')))
         (c_str (phone (new_node ''Alice'' ''123'')))"
proof -
  have len: "strlen ''Alice'' < MAX_NAME_LEN" "strlen ''123'' < MAX_PHONE_LEN"
    by (simp_all add: strlen_def c_str_def MAX_NAME_LEN_def MAX_PHONE_LEN_def)
  have h: "hashFunction ''Alice'' (size_ht phonebook) = Inr 7"
    by (simp add: phonebook_eq hashFunction_def char_to_int_def)
  from insert_reports_arguments [OF valid_phonebook, of "''Alice''" "''123''"] h len
  have "insertContact True phonebook ''Alice'' ''123'' =
     Inr (phonebook\<lparr>table := (table phonebook)
            [unat (7 :: 32 word) := new_node ''Alice'' ''123'' # table phonebook ! unat (7 :: 32 word)]\<rparr>,
          Printf (added_message (c_str ''Alice'') (c_str ''123'')))"
    and "added_message (c_str ''Alice'') (c_str ''123'')
     = added_message (c_str (name (new_node ''Alice'' ''123'')))
         (c_str (phone (new_node ''Alice'' ''123'')))"
    by auto
  with valid_phonebook len h show ?thesis
    by (intro conjI)
qed

subsection \<open>Names longer than the buffer\<close>

text \<open>
  Claim C10, as stated: insert truncates the stored name to 49 bytes while search and
  delete compare the untruncated query, so that for every name longer than 49 bytes a
  search with that name after its insert returns not-found, while a search with its first
  49 bytes finds the entry. The last part fails: the bucket of the entry comes from the
  whole name and the bucket searched from the 49 bytes. For 50 bytes \<open>a\<close> these are buckets
  83 and 46 of the table of \<open>main\<close>, and the search with the 49 bytes returns not-found.
\<close>

theorem truncation_asymmetry_counterexample:
  "search_after phonebook [Insert True (replicate 50 CHR ''a'') ''1''] (replicate 49 CHR ''a'')
     = Inr None \<and>
   entries (projr (run phonebook [Insert True (replicate 50 CHR ''a'') ''1'']))
     = [new_node (replicate 50 CHR ''a'') ''1''] \<and>
   c_str (name (new_node (replicate 50 CHR ''a'') ''1'')) = replicate 49 CHR ''a'' \<and>
   take (MAX_NAME_LEN - 1) (c_str (replicate 50 CHR ''a'')) = replicate 49 CHR ''a'' \<and>
   hashFunction (replicate 50 CHR ''a'') (size_ht phonebook) = Inr 83 \<and>
   hashFunction (replicate 49 CHR ''a'') (size_ht phonebook) = Inr 46"
  by code_simp

text \<open>
  Claim C10, amended: for every name longer than 49 bytes, insert on a well-formed table
  stores an entry whose name is the first 49 bytes; a search with the whole name then
  returns not-found, and a delete with it reports not-found and changes nothing. A search
  with the first 49 bytes finds the entry when they hash to the bucket of the whole name;
  when they hash to another bucket it returns what it returned before the insert.
\<close>

theorem truncation_asymmetry:
  "valid ht \<Longrightarrow> MAX_NAME_LEN \<le> strlen nm \<Longrightarrow> q = take (MAX_NAME_LEN - 1) (c_str nm) \<Longrightarrow>
   \<exists>ht' msg.
     insertContact True ht nm ph = Inr (ht', msg) \<and>
     new_node nm ph \<in> set (entries ht') \<and>
     c_str (name (new_node nm ph)) = q \<and>
     searchContact ht' nm = Inr None \<and>
     deleteContact ht' nm = Inr (ht', Printf (not_found_message (c_str nm))) \<and>
     (hashFunction q (size_ht ht) = hashFunction nm (size_ht ht) \<longrightarrow>
        searchContact ht' q = Inr (Some (new_node nm ph))) \<and>
     (hashFunction q (size_ht ht) \<noteq> hashFunction nm (size_ht ht) \<longrightarrow>
        searchContact ht' q = searchContact ht q)"
proof -
  assume v: "valid ht" and long: "MAX_NAME_LEN \<le> strlen nm"
    and q: "q = take (MAX_NAME_LEN - 1) (c_str nm)"
  from valid_hash [OF v, of nm] obtain i
    where i: "hashFunction nm (size_ht ht) = Inr i" "unat i < length (table ht)" by blast
  define ht' where
    "ht' = ht\<lparr>table := (table ht)[unat i := new_node nm ph # table ht ! unat i]\<rparr>"
  have ins: "insertContact True ht nm ph = Inr (ht', Printf (added_message (c_str nm) (c_str ph)))"
    unfolding ht'_def by (rule insertContact_valid [OF v i(1)])
  from valid_insert [OF v ins] have v': "valid ht'" .
  have "new_node nm ph \<in> set (table ht' ! unat i)"
    using i(2) by (simp add: ht'_def)
  moreover have "table ht' ! unat i \<in> set (table ht')"
    using i(2) by (intro nth_mem) (simp add: ht'_def)
  ultimately have mem: "new_node nm ph \<in> set (entries ht')"
    unfolding entries_def by auto
  note search_long_name [OF v' long] delete_long_name [OF v' long] search_prefix [OF v ins q]
    name_new_node [of nm ph, folded q]
  with ins mem show ?thesis
    by blast
qed

theorem truncation_asymmetry_witness:
  "valid phonebook \<and>
   MAX_NAME_LEN \<le> strlen (replicate 49 CHR ''c'' @ ''d'') \<and>
   replicate 49 CHR ''c'' = take (MAX_NAME_LEN - 1) (c_str (replicate 49 CHR ''c'' @ ''d'')) \<and>
   hashFunction (replicate 49 CHR ''c'') (size_ht phonebook)
     = hashFunction (replicate 49 CHR ''c'' @ ''d'') (size_ht phonebook) \<and>
   search_after phonebook [Insert True (replicate 49 CHR ''c'' @ ''d'') ''1'']
     (replicate 49 CHR ''c'' @ ''d'') = Inr None \<and>
   search_after phonebook [Insert True (replicate 49 CHR ''c'' @ ''d'') ''1'']
     (replicate 49 CHR ''c'') = Inr (Some (new_node (replicate 49 CHR ''c'' @ ''d'') ''1''))"
proof -
  let ?nm = "replicate 49 CHR ''c'' @ ''d''"
  have long: "MAX_NAME_LEN \<le> strlen ?nm"
    by code_simp
  have q: "replicate 49 CHR ''c'' = take (MAX_NAME_LEN - 1) (c_str ?nm)"
    by code_simp
  have h: "hashFunction (replicate 49 CHR ''c'') (size_ht phonebook)
     = hashFunction ?nm (size_ht phonebook)"
    by code_simp
  from truncation_asymmetry [OF valid_phonebook long q, of "''1''"] h obtain ht' msg where
    "insertContact True phonebook ?nm ''1'' = Inr (ht', msg)"
    "searchContact ht' ?nm = Inr None"
    "searchContact ht' (replicate 49 CHR ''c'') = Inr (Some (new_node ?nm ''1''))"
    by blast
  then have "search_after phonebook [Insert True ?nm ''1''] ?nm = Inr None"
    and "search_after phonebook [Insert True ?nm ''1''] (replicate 49 CHR ''c'')
      = Inr (Some (new_node ?nm ''1''))"
    by (simp_all add: search_after_def)
  with valid_phonebook long q h show ?thesis
    by (intro conjI)
qed

end
